theory Spec2Isabelle
  imports Complex_Main "HOL-Library.Log_Nat"
begin

section \<open>QUnfoldQUBO: the QUBO formulation of unfolding\<close>

text \<open>
  A shallow embedding of \<^verbatim>\<open>src/QUnfold/core/QUnfoldQUBO.py\<close>.

  Numbers: numpy's float64 entries are modelled as exact reals, so rounding is not part of
  the model, except in the replay of \<open>_normalize\<close> in binary64 at the end of the
  definitions, which rounds every sum and quotient. The three places where IEEE arithmetic
  leaves the reals are written out:
  a division by zero (outcome \<open>NonFinite\<close>), \<open>log2\<close> of zero or of a negative number and
  what \<open>floor\<close>, \<open>2 ** _\<close> and \<open>int\<close> do with the result (type \<open>npfloat\<close>).

  Arrays: a two-dimensional array is the list of its rows, a one-dimensional array a list.
  An array with no row has no column in this representation. Arrays live in a store and
  are named by references, since \<open>self.R = response\<close> aliases the caller's array.
\<close>

subsection \<open>Errors\<close>

datatype np_error =
    ValueError      \<comment> \<open>shape mismatch in \<open>@\<close> or in broadcasting, \<open>np.ones(-1)\<close>, \<open>int(nan)\<close>, \<open>min\<close> of nothing\<close>
  | IndexError      \<comment> \<open>\<open>a[i]\<close>, \<open>B[i, j]\<close> out of bounds\<close>
  | KeyError        \<comment> \<open>\<open>subh[label]\<close> for an unknown label\<close>
  | OverflowError   \<comment> \<open>\<open>int(inf)\<close>\<close>
  | NonFinite       \<comment> \<open>a float division by zero: \<open>inf\<close> or \<open>nan\<close> with a RuntimeWarning\<close>

subsection \<open>Arrays and the store\<close>

type_synonym vector = "real list"
type_synonym matrix = "real list list"
type_synonym ref = nat
type_synonym store = "matrix list"

definition nrows :: "matrix \<Rightarrow> nat" where
  "nrows M = length M"

definition ncols :: "matrix \<Rightarrow> nat" where
  "ncols M = (case M of [] \<Rightarrow> 0 | r # _ \<Rightarrow> length r)"

definition is_matrix :: "matrix \<Rightarrow> bool" where
  \<comment> \<open>every row has the same length: what numpy's shape guarantees\<close>
  "is_matrix M = list_all (\<lambda>r. length r = ncols M) M"

definition np_copy :: "ref \<Rightarrow> store \<Rightarrow> ref \<times> store" where
  \<comment> \<open>\<open>np.copy\<close>: a new array object holding the same values\<close>
  "np_copy a s = (length s, s @ [s ! a])"

definition np_sum_axis1 :: "matrix \<Rightarrow> vector" where
  \<comment> \<open>\<open>np.sum(matrix, axis=1)\<close>\<close>
  "np_sum_axis1 M = map sum_list M"

definition np_allclose :: "vector \<Rightarrow> real \<Rightarrow> bool" where
  \<comment> \<open>\<open>np.allclose(v, b)\<close> with the default \<open>rtol = 1e-5\<close>, \<open>atol = 1e-8\<close>\<close>
  "np_allclose v b = list_all (\<lambda>a. \<bar>a - b\<bar> \<le> 1 / 10 ^ 8 + 1 / 10 ^ 5 * \<bar>b\<bar>) v"

definition np_nonzero :: "vector \<Rightarrow> nat list" where
  \<comment> \<open>\<open>np.nonzero(v)\<close>: the indices of the nonzero entries, ascending\<close>
  "np_nonzero v = filter (\<lambda>i. v ! i \<noteq> 0) [0..<length v]"

definition getitem :: "'a list \<Rightarrow> nat list \<Rightarrow> 'a list" where
  \<comment> \<open>\<open>v[msk]\<close> with an index array: a new array of the selected entries (rows)\<close>
  "getitem v msk = map (\<lambda>i. v ! i) msk"

definition setitem :: "'a list \<Rightarrow> nat list \<Rightarrow> 'a list \<Rightarrow> 'a list" where
  \<comment> \<open>\<open>v[msk] = w\<close>: writes \<open>w[k]\<close> at index \<open>msk[k]\<close>, in place\<close>
  "setitem v msk w = fold (\<lambda>(i, r) u. u[i := r]) (zip msk w) v"

definition np_true_divide :: "vector \<Rightarrow> real \<Rightarrow> np_error + vector" where
  \<comment> \<open>one row divided by one scalar\<close>
  "np_true_divide row q = (if q = 0 then Inl NonFinite else Inr (map (\<lambda>v. v / q) row))"

fun divide_rows :: "matrix \<Rightarrow> vector \<Rightarrow> np_error + matrix" where
  \<comment> \<open>\<open>rows / sums[:, np.newaxis]\<close>: row \<open>k\<close> divided by \<open>sums[k]\<close>\<close>
  "divide_rows (r # rs) (q # qs) =
     (case np_true_divide r q of
        Inl e \<Rightarrow> Inl e
      | Inr r' \<Rightarrow> (case divide_rows rs qs of Inl e \<Rightarrow> Inl e | Inr rs' \<Rightarrow> Inr (r' # rs')))"
| "divide_rows [] [] = Inr []"
| "divide_rows _ _ = Inl ValueError"

subsection \<open>The object and its constructor\<close>

record QUnfoldQUBO =
  R :: ref
  d :: vector
  lam :: real

definition is_normalized :: "matrix \<Rightarrow> bool" where
  "is_normalized M = np_allclose (np_sum_axis1 M) 1"

definition normalize_matrix :: "ref \<Rightarrow> store \<Rightarrow> np_error + (ref \<times> store)" where
  "normalize_matrix a s =
     (let row_sums = np_sum_axis1 (s ! a);
          msk = np_nonzero row_sums;
          (norm_matrix, s1) = np_copy a s
      in case divide_rows (getitem (s1 ! norm_matrix) msk) (getitem row_sums msk) of
           Inl e \<Rightarrow> Inl e
         | Inr q \<Rightarrow> Inr (norm_matrix, s1[norm_matrix := setitem (s1 ! norm_matrix) msk q]))"

definition init :: "ref \<Rightarrow> vector \<Rightarrow> real \<Rightarrow> store \<Rightarrow> np_error + (QUnfoldQUBO \<times> store)" where
  "init response meas l s =
     (let self = \<lparr>R = response, d = meas, lam = l\<rparr>
      in if \<not> is_normalized (s ! R self)
         then (case normalize_matrix (R self) s of
                 Inl e \<Rightarrow> Inl e
               | Inr (r, s') \<Rightarrow> Inr (self\<lparr>R := r\<rparr>, s'))
         else Inr (self, s))"

subsection \<open>Floats outside the reals\<close>

datatype npfloat = Fin real | NegInf | NaN

definition np_log2 :: "real \<Rightarrow> npfloat" where
  \<comment> \<open>\<open>np.log2\<close>: \<open>-inf\<close> at zero and \<open>nan\<close> below zero, each with a RuntimeWarning\<close>
  "np_log2 x = (if x < 0 then NaN else if x = 0 then NegInf else Fin (log 2 x))"

fun np_floor :: "npfloat \<Rightarrow> npfloat" where
  "np_floor (Fin x) = Fin (of_int \<lfloor>x\<rfloor>)"
| "np_floor NegInf = NegInf"
| "np_floor NaN = NaN"

fun pow2 :: "npfloat \<Rightarrow> npfloat" where
  \<comment> \<open>\<open>2 ** y\<close>\<close>
  "pow2 (Fin y) = Fin (2 powr y)"
| "pow2 NegInf = Fin 0"
| "pow2 NaN = NaN"

fun py_int :: "npfloat \<Rightarrow> np_error + int" where
  \<comment> \<open>\<open>int(y)\<close>: truncation towards zero\<close>
  "py_int (Fin y) = Inr (if 0 \<le> y then \<lfloor>y\<rfloor> else \<lceil>y\<rceil>)"
| "py_int NegInf = Inl OverflowError"
| "py_int NaN = Inl ValueError"

subsection \<open>Encoded variables\<close>

record LogEncInteger =
  label :: string
  value_range :: "int \<times> int"

fun str_nat :: "nat \<Rightarrow> string" where
  \<comment> \<open>the decimal digits that \<open>f"{i}"\<close> prints\<close>
  "str_nat n =
     (if n < 10 then [''0123456789'' ! n]
      else str_nat (n div 10) @ [''0123456789'' ! (n mod 10)])"

declare str_nat.simps [simp del]

definition define_variables_n :: "vector \<Rightarrow> np_error + int" where
  \<comment> \<open>the local \<open>n\<close> of \<open>_define_variables\<close>: \<open>int(2 ** np.floor(np.log2(sum(self.d)))) - 1\<close>\<close>
  "define_variables_n meas =
     (case py_int (pow2 (np_floor (np_log2 (sum_list meas)))) of
        Inl e \<Rightarrow> Inl e
      | Inr p \<Rightarrow> Inr (p - 1))"

definition define_variables :: "QUnfoldQUBO \<Rightarrow> np_error + LogEncInteger list" where
  "define_variables self =
     (case define_variables_n (d self) of
        Inl e \<Rightarrow> Inl e
      | Inr n \<Rightarrow>
          Inr (map (\<lambda>i. \<lparr>label = ''x'' @ str_nat i, value_range = (0, n)\<rparr>)
                 [0..<length (d self)]))"

subsection \<open>Linear algebra\<close>

definition np_T :: "matrix \<Rightarrow> matrix" where
  \<comment> \<open>\<open>M.T\<close>\<close>
  "np_T M = map (\<lambda>j. map (\<lambda>r. r ! j) M) [0..<ncols M]"

definition matvec :: "matrix \<Rightarrow> vector \<Rightarrow> np_error + vector" where
  \<comment> \<open>\<open>A @ v\<close> for a two-dimensional \<open>A\<close> and a one-dimensional \<open>v\<close>\<close>
  "matvec A v =
     (if ncols A \<noteq> length v then Inl ValueError
      else Inr (map (\<lambda>r. \<Sum>k\<leftarrow>[0..<length v]. r ! k * v ! k) A))"

definition matmul :: "matrix \<Rightarrow> matrix \<Rightarrow> np_error + matrix" where
  \<comment> \<open>\<open>A @ B\<close> for two-dimensional arrays\<close>
  "matmul A B =
     (if ncols A \<noteq> nrows B then Inl ValueError
      else Inr (map (\<lambda>r. map (\<lambda>j. \<Sum>k\<leftarrow>[0..<nrows B]. r ! k * B ! k ! j) [0..<ncols B]) A))"

definition np_scale :: "real \<Rightarrow> matrix \<Rightarrow> matrix" where
  \<comment> \<open>a scalar times an array\<close>
  "np_scale c M = map (map (\<lambda>v. c * v)) M"

definition np_add :: "matrix \<Rightarrow> matrix \<Rightarrow> np_error + matrix" where
  \<comment> \<open>\<open>A + B\<close> with numpy's broadcasting: an axis of extent 1 is stretched to the other's\<close>
  "np_add A B =
     (let ra = nrows A; ca = ncols A; rb = nrows B; cb = ncols B
      in if (ra = rb \<or> ra = 1 \<or> rb = 1) \<and> (ca = cb \<or> ca = 1 \<or> cb = 1)
         then Inr (map (\<lambda>i. map (\<lambda>j. A ! (if ra = 1 then 0 else i) ! (if ca = 1 then 0 else j)
                                    + B ! (if rb = 1 then 0 else i) ! (if cb = 1 then 0 else j))
                               [0..<(if ca = 1 then cb else ca)])
                     [0..<(if ra = 1 then rb else ra)])
         else Inl ValueError)"

definition np_ones :: "nat \<Rightarrow> vector" where
  "np_ones n = replicate n 1"

definition np_diag :: "vector \<Rightarrow> int \<Rightarrow> matrix" where
  \<comment> \<open>\<open>np.diag(v, k)\<close>: the square array of extent \<open>len(v) + |k|\<close> with \<open>v\<close> on diagonal \<open>k\<close>\<close>
  "np_diag v k =
     (let n = length v + nat \<bar>k\<bar>
      in map (\<lambda>i. map (\<lambda>j. if int j - int i = k then v ! (if 0 \<le> k then i else j) else 0)
                     [0..<n])
           [0..<n])"

definition get_laplacian :: "nat \<Rightarrow> np_error + matrix" where
  \<comment> \<open>\<open>np.ones(dim - 1)\<close> raises ValueError for the negative extent that \<open>dim = 0\<close> gives\<close>
  "get_laplacian dimension =
     (if dimension = 0 then Inl ValueError
      else let diag = map (\<lambda>v. v * (- 2)) (np_ones dimension);
               ones = np_ones (dimension - 1)
           in case np_add (np_diag diag 0) (np_diag ones 1) of
                Inl e \<Rightarrow> Inl e
              | Inr D \<Rightarrow> np_add D (np_diag ones (- 1)))"

subsection \<open>The Hamiltonian\<close>

datatype expr = Num real | Var LogEncInteger | Add expr expr | Mul expr expr

fun eval :: "(LogEncInteger \<Rightarrow> real) \<Rightarrow> expr \<Rightarrow> real" where
  \<comment> \<open>the value of an expression when each integer variable takes the value \<open>env\<close> gives it\<close>
  "eval env (Num c) = c"
| "eval env (Var x) = env x"
| "eval env (Add e f) = eval env e + eval env f"
| "eval env (Mul e f) = eval env e * eval env f"

fun linear_terms :: "vector \<Rightarrow> LogEncInteger list \<Rightarrow> nat list \<Rightarrow> expr \<Rightarrow> np_error + expr" where
  \<comment> \<open>\<open>for i in ...: hamiltonian += a[i] * x[i]\<close>\<close>
  "linear_terms a x [] h = Inr h"
| "linear_terms a x (i # ks) h =
     (if i < length a
      then linear_terms a x ks (Add h (Mul (Num (a ! i)) (Var (x ! i))))
      else Inl IndexError)"

fun quadratic_row :: "matrix \<Rightarrow> LogEncInteger list \<Rightarrow> nat \<Rightarrow> nat list \<Rightarrow> expr \<Rightarrow> np_error + expr" where
  \<comment> \<open>\<open>for j in ...: hamiltonian += B[i, j] * x[i] * x[j]\<close>\<close>
  "quadratic_row B x i [] h = Inr h"
| "quadratic_row B x i (j # ks) h =
     (if i < nrows B \<and> j < ncols B
      then quadratic_row B x i ks (Add h (Mul (Mul (Num (B ! i ! j)) (Var (x ! i))) (Var (x ! j))))
      else Inl IndexError)"

fun quadratic_terms :: "matrix \<Rightarrow> LogEncInteger list \<Rightarrow> nat \<Rightarrow> nat list \<Rightarrow> expr \<Rightarrow> np_error + expr" where
  \<comment> \<open>\<open>for i in ...: for j in range(dim): ...\<close>\<close>
  "quadratic_terms B x dimension [] h = Inr h"
| "quadratic_terms B x dimension (i # ks) h =
     (case quadratic_row B x i [0..<dimension] h of
        Inl e \<Rightarrow> Inl e
      | Inr h' \<Rightarrow> quadratic_terms B x dimension ks h')"

definition hamiltonian_B :: "QUnfoldQUBO \<Rightarrow> matrix \<Rightarrow> store \<Rightarrow> np_error + matrix" where
  \<comment> \<open>\<open>B = (self.R.T @ self.R) + self.lam * (G.T @ G)\<close>\<close>
  "hamiltonian_B self G s =
     (case matmul (np_T (s ! R self)) (s ! R self) of
        Inl e \<Rightarrow> Inl e
      | Inr RtR \<Rightarrow>
          (case matmul (np_T G) G of
             Inl e \<Rightarrow> Inl e
           | Inr GtG \<Rightarrow> np_add RtR (np_scale (lam self) GtG)))"

definition define_hamiltonian :: "QUnfoldQUBO \<Rightarrow> LogEncInteger list \<Rightarrow> store \<Rightarrow> np_error + expr" where
  "define_hamiltonian self x s =
     (let hamiltonian = Num 0;
          dimension = length x
      in case matvec (np_T (s ! R self)) (d self) of
           Inl e \<Rightarrow> Inl e
         | Inr Rd \<Rightarrow>
             (let a = map (\<lambda>v. - 2 * v) Rd
              in case linear_terms a x [0..<dimension] hamiltonian of
                   Inl e \<Rightarrow> Inl e
                 | Inr h1 \<Rightarrow>
                     (case get_laplacian dimension of
                        Inl e \<Rightarrow> Inl e
                      | Inr G \<Rightarrow>
                          (case hamiltonian_B self G s of
                             Inl e \<Rightarrow> Inl e
                           | Inr B \<Rightarrow> quadratic_terms B x dimension [0..<dimension] h1))))"

subsection \<open>The compiled model, samples and the two solvers\<close>

datatype model = Model expr

definition compile :: "expr \<Rightarrow> model" where
  "compile h = Model h"

fun to_bqm :: "model \<Rightarrow> expr" where
  \<comment> \<open>the binary quadratic model handed to a sampler: the polynomial itself\<close>
  "to_bqm (Model h) = h"

definition define_pyqubo_model :: "QUnfoldQUBO \<Rightarrow> store \<Rightarrow> np_error + (string list \<times> model)" where
  "define_pyqubo_model self s =
     (case define_variables self of
        Inl e \<Rightarrow> Inl e
      | Inr x \<Rightarrow>
          (case define_hamiltonian self x s of
             Inl e \<Rightarrow> Inl e
           | Inr h \<Rightarrow>
               (let labels = map (\<lambda>i. label (x ! i)) [0..<length x];
                    model = compile h
                in Inr (labels, model))))"

record sample =
  assignment :: "string \<Rightarrow> nat \<Rightarrow> bool"
  sample_energy :: real

record decoded_sample =
  subh :: "string \<rightharpoonup> real"
  energy :: real

fun num_digits :: "nat \<Rightarrow> nat" where
  \<comment> \<open>Modelled from the spec: the encoding classes of pyqubo are not part of the repository.
      The number of binary digits of the upper limit, "O(log2(n_max)) binary digits".\<close>
  "num_digits n = (if n = 0 then 0 else Suc (num_digits (n div 2)))"

declare num_digits.simps [simp del]

definition log_decode :: "bool list \<Rightarrow> nat" where
  \<comment> \<open>Modelled from the spec: the decode rule of pyqubo's logarithmic encoding, "weighted
      sum of the binary digits" with positional weights.\<close>
  "log_decode bs = (\<Sum>i\<leftarrow>[0..<length bs]. of_bool (bs ! i) * 2 ^ i)"

definition decode_variable :: "LogEncInteger \<Rightarrow> (string \<Rightarrow> nat \<Rightarrow> bool) \<Rightarrow> real" where
  \<comment> \<open>Modelled from the spec: the integer value of one encoded variable under an assignment
      of its binary sub-variables, numbered from the least significant.\<close>
  "decode_variable x b =
     (let (lower, upper) = value_range x
      in of_int lower
         + of_nat (log_decode (map (b (label x)) [0..<num_digits (nat (upper - lower))])))"

fun expr_vars :: "expr \<Rightarrow> LogEncInteger list" where
  "expr_vars (Num c) = []"
| "expr_vars (Var x) = [x]"
| "expr_vars (Add e f) = expr_vars e @ expr_vars f"
| "expr_vars (Mul e f) = expr_vars e @ expr_vars f"

definition decode_sampleset :: "model \<Rightarrow> sample list \<Rightarrow> decoded_sample list" where
  \<comment> \<open>Modelled from the spec: pyqubo's \<open>decode_sampleset\<close>. Each sample keeps its energy and
      its place, and \<open>subh\<close> maps the label of every integer variable of the model to its
      decoded value.\<close>
  "decode_sampleset m ss =
     map (\<lambda>sm. \<lparr>subh = (\<lambda>l. map_option (\<lambda>x. decode_variable x (assignment sm))
                             (find (\<lambda>x. label x = l) (expr_vars (to_bqm m)))),
               energy = sample_energy sm\<rparr>) ss"

fun py_min_from :: "('a \<Rightarrow> real) \<Rightarrow> 'a \<Rightarrow> 'a list \<Rightarrow> 'a" where
  \<comment> \<open>the loop of the builtin \<open>min\<close>: a later item replaces the best only if its key is smaller\<close>
  "py_min_from key best [] = best"
| "py_min_from key best (x # xs) = py_min_from key (if key x < key best then x else best) xs"

definition py_min :: "('a \<Rightarrow> real) \<Rightarrow> 'a list \<Rightarrow> np_error + 'a" where
  \<comment> \<open>\<open>min(xs, key=key)\<close>; ValueError on an empty sequence\<close>
  "py_min key xs = (case xs of [] \<Rightarrow> Inl ValueError | x # rest \<Rightarrow> Inr (py_min_from key x rest))"

fun subh_values :: "(string \<rightharpoonup> real) \<Rightarrow> string list \<Rightarrow> np_error + vector" where
  \<comment> \<open>\<open>[best_sample.subh[label] for label in labels]\<close>\<close>
  "subh_values m [] = Inr []"
| "subh_values m (l # ls) =
     (case m l of
        None \<Rightarrow> Inl KeyError
      | Some v \<Rightarrow> (case subh_values m ls of Inl e \<Rightarrow> Inl e | Inr vs \<Rightarrow> Inr (v # vs)))"

definition solve_simulated_annealing ::
  "(expr \<Rightarrow> int \<Rightarrow> int option \<Rightarrow> np_error + sample list) \<Rightarrow> int \<Rightarrow> int option
     \<Rightarrow> QUnfoldQUBO \<Rightarrow> store \<Rightarrow> np_error + vector" where
  \<comment> \<open>the sampler is a parameter: what \<open>SimulatedAnnealingSampler().sample\<close> returns or raises\<close>
  "solve_simulated_annealing sampler num_reads seed self s =
     (case define_pyqubo_model self s of
        Inl e \<Rightarrow> Inl e
      | Inr (labels, model) \<Rightarrow>
          (case sampler (to_bqm model) num_reads seed of
             Inl e \<Rightarrow> Inl e
           | Inr sampleset \<Rightarrow>
               (let decoded_sampleset = decode_sampleset model sampleset
                in case py_min energy decoded_sampleset of
                     Inl e \<Rightarrow> Inl e
                   | Inr best_sample \<Rightarrow> subh_values (subh best_sample) labels)))"

definition solve_hybrid_sampler ::
  "(expr \<Rightarrow> np_error + sample list) \<Rightarrow> QUnfoldQUBO \<Rightarrow> store \<Rightarrow> np_error + vector" where
  \<comment> \<open>the sampler is a parameter: what \<open>LeapHybridSampler().sample\<close> returns or raises\<close>
  "solve_hybrid_sampler sampler self s =
     (case define_pyqubo_model self s of
        Inl e \<Rightarrow> Inl e
      | Inr (labels, model) \<Rightarrow>
          (case sampler (to_bqm model) of
             Inl e \<Rightarrow> Inl e
           | Inr sampleset \<Rightarrow>
               (let decoded_sampleset = decode_sampleset model sampleset
                in case py_min energy decoded_sampleset of
                     Inl e \<Rightarrow> Inl e
                   | Inr best_sample \<Rightarrow> subh_values (subh best_sample) labels)))"

subsection \<open>binary64 rounding: a replay of \<open>_normalize\<close> as numpy computes it\<close>







section \<open>Definitions that follow the specification's words\<close>

definition scaled_row :: "vector \<Rightarrow> vector" where
  \<comment> \<open>what the contract asks of one row: divided by its own sum unless that sum is zero\<close>
  "scaled_row r = (if sum_list r = 0 then r else map (\<lambda>v. v / sum_list r) r)"

fun log_encode :: "nat \<Rightarrow> nat \<Rightarrow> bool list" where
  \<comment> \<open>Modelled from the spec: "encoding \<open>v\<close> into its logarithmic binary digits", the first
      \<open>k\<close> binary digits of \<open>v\<close> from the least significant. No function of the repository
      encodes; the samplers produce the digits.\<close>
  "log_encode 0 v = []"
| "log_encode (Suc k) v = odd v # log_encode k (v div 2)"

definition tabulate2 :: "nat \<Rightarrow> nat \<Rightarrow> (nat \<Rightarrow> nat \<Rightarrow> real) \<Rightarrow> matrix" where
  \<comment> \<open>the array of \<open>r\<close> rows and \<open>c\<close> columns whose entry \<open>(i, j)\<close> is \<open>f i j\<close>\<close>
  "tabulate2 r c f = map (\<lambda>i. map (f i) [0..<c]) [0..<r]"

definition second_difference :: "nat \<Rightarrow> nat \<Rightarrow> real" where
  \<comment> \<open>the entries of \<open>G\<close>: "diagonal = -2, first off-diagonals = 1, zero elsewhere"\<close>
  "second_difference i j = (if i = j then - 2 else if j = Suc i \<or> i = Suc j then 1 else 0)"

definition linear_coefficient :: "matrix \<Rightarrow> vector \<Rightarrow> nat \<Rightarrow> real" where
  \<comment> \<open>\<open>a = -2 \<cdot> R\<^sup>t d\<close>\<close>
  "linear_coefficient M v i = - 2 * (\<Sum>k<length M. M ! k ! i * v ! k)"

definition quadratic_coefficient :: "matrix \<Rightarrow> real \<Rightarrow> nat \<Rightarrow> nat \<Rightarrow> nat \<Rightarrow> real" where
  \<comment> \<open>\<open>B = R\<^sup>t R + lam \<cdot> G\<^sup>t G\<close> for the \<open>n \<times> n\<close> matrix \<open>G\<close>\<close>
  "quadratic_coefficient M l n i j =
     (\<Sum>k<length M. M ! k ! i * M ! k ! j)
     + l * (\<Sum>k<n. second_difference k i * second_difference k j)"

definition quadratic_form :: "matrix \<Rightarrow> vector \<Rightarrow> real \<Rightarrow> nat \<Rightarrow> (nat \<Rightarrow> real) \<Rightarrow> real" where
  \<comment> \<open>\<open>H(x) = a\<^sup>t x + x\<^sup>t B x\<close> over \<open>n\<close> variables\<close>
  "quadratic_form M v l n x =
     (\<Sum>i<n. linear_coefficient M v i * x i)
     + (\<Sum>i<n. \<Sum>j<n. quadratic_coefficient M l n i j * x i * x j)"

section \<open>Normalisation\<close>

lemma divide_rows_getitem:
  assumes "\<forall>i \<in> set msk. q ! i \<noteq> 0"
  shows "divide_rows (getitem M msk) (getitem q msk)
           = Inr (map (\<lambda>i. map (\<lambda>v. v / q ! i) (M ! i)) msk)"
  using assms by (induction msk) (simp_all add: getitem_def np_true_divide_def)

lemma setitem_length: "length (setitem v msk w) = length v"
proof -
  have "length (fold (\<lambda>(i, r) u. u[i := r]) ps v) = length v" for ps :: "(nat \<times> 'a) list"
    by (induction ps arbitrary: v) (simp_all add: case_prod_beta)
  then show ?thesis by (simp add: setitem_def)
qed

lemma setitem_nth:
  assumes "distinct msk" and "j < length v"
  shows "setitem v msk (map f msk) ! j = (if j \<in> set msk then f j else v ! j)"
  using assms
proof (induction msk arbitrary: v)
  case Nil
  then show ?case by (simp add: setitem_def)
next
  case (Cons i msk)
  have step: "setitem v (i # msk) (map f (i # msk)) = setitem (v[i := f i]) msk (map f msk)"
    by (simp add: setitem_def)
  from Cons.prems have dm: "distinct msk" and ni: "i \<notin> set msk" by simp_all
  from Cons.prems have jl: "j < length (v[i := f i])" by simp
  show ?case
    unfolding step Cons.IH [OF dm jl]
    using ni Cons.prems(2) by (auto simp: nth_list_update)
qed

lemma normalize_matrix_value:
  assumes "a < length s"
  shows "normalize_matrix a s = Inr (length s, s @ [map scaled_row (s ! a)])"
proof -
  let ?M = "s ! a"
  let ?q = "np_sum_axis1 ?M"
  let ?msk = "np_nonzero ?q"
  let ?f = "\<lambda>i. map (\<lambda>v. v / ?q ! i) (?M ! i)"
  have nz: "\<forall>i \<in> set ?msk. ?q ! i \<noteq> 0" by (simp add: np_nonzero_def)
  have dist: "distinct ?msk" by (simp add: np_nonzero_def)
  have copy: "(s @ [?M]) ! length s = ?M" by simp
  have "setitem ?M ?msk (map ?f ?msk) = map scaled_row ?M"
  proof (rule nth_equalityI)
    show "length (setitem ?M ?msk (map ?f ?msk)) = length (map scaled_row ?M)"
      by (simp add: setitem_length)
  next
    fix j assume "j < length (setitem ?M ?msk (map ?f ?msk))"
    then have j: "j < length ?M" by (simp add: setitem_length)
    then have mem: "j \<in> set ?msk \<longleftrightarrow> sum_list (?M ! j) \<noteq> 0"
      by (auto simp: np_nonzero_def np_sum_axis1_def)
    from j have qj: "?q ! j = sum_list (?M ! j)" by (simp add: np_sum_axis1_def)
    show "setitem ?M ?msk (map ?f ?msk) ! j = map scaled_row ?M ! j"
      using j by (simp add: setitem_nth [OF dist j] mem qj scaled_row_def)
  qed
  then show ?thesis
    using assms
    by (simp add: normalize_matrix_def np_copy_def Let_def divide_rows_getitem [OF nz])
qed

lemma sum_list_all_zero: "\<forall>v \<in> set r. v = (0::real) \<Longrightarrow> sum_list r = 0"
  by (induction r) simp_all

text \<open>
  C4. \<open>_normalize\<close> never divides by zero: on every matrix (whether or not it has all-zero
  rows) it returns a result, in a new array of the same number of rows. A row whose sum is
  not zero is divided by its own sum, a row whose sum is zero is returned as it is, and
  so an all-zero row stays all-zero.
\<close>

theorem normalize_zero_rows_safe:
  assumes "a < length s"
  shows "\<exists>N. normalize_matrix a s = Inr (length s, s @ [N]) \<and> length N = length (s ! a) \<and>
           (\<forall>i < length (s ! a).
              (sum_list (s ! a ! i) \<noteq> 0 \<longrightarrow>
                 N ! i = map (\<lambda>v. v / sum_list (s ! a ! i)) (s ! a ! i)) \<and>
              (sum_list (s ! a ! i) = 0 \<longrightarrow> N ! i = s ! a ! i) \<and>
              ((\<forall>v \<in> set (s ! a ! i). v = 0) \<longrightarrow>
                 N ! i = s ! a ! i \<and> (\<forall>v \<in> set (N ! i). v = 0)))"
proof (intro exI conjI allI impI)
  show "normalize_matrix a s = Inr (length s, s @ [map scaled_row (s ! a)])"
    by (rule normalize_matrix_value [OF assms])
  show "length (map scaled_row (s ! a)) = length (s ! a)" by simp
next
  fix i assume "i < length (s ! a)" and "sum_list (s ! a ! i) \<noteq> 0"
  then show "map scaled_row (s ! a) ! i = map (\<lambda>v. v / sum_list (s ! a ! i)) (s ! a ! i)"
    by (simp add: scaled_row_def)
next
  fix i assume "i < length (s ! a)" and "sum_list (s ! a ! i) = 0"
  then show "map scaled_row (s ! a) ! i = s ! a ! i"
    by (simp add: scaled_row_def)
next
  fix i assume i: "i < length (s ! a)" and z: "\<forall>v \<in> set (s ! a ! i). v = 0"
  from z have "sum_list (s ! a ! i) = 0" by (rule sum_list_all_zero)
  with i show eq: "map scaled_row (s ! a) ! i = s ! a ! i"
    by (simp add: scaled_row_def)
  from z show "\<forall>v \<in> set (map scaled_row (s ! a) ! i). v = 0"
    unfolding eq .
qed

theorem normalize_zero_rows_safe_witness:
  "(0::nat) < length [[[0, 0], [1, 3::real]]] \<and>
   normalize_matrix 0 [[[0, 0], [1, 3]]]
     = Inr (1, [[[0, 0], [1, 3]], [[0, 0], [1 / 4, 3 / 4]]])"
proof -
  let ?s = "[[[0, 0], [1, 3::real]]]"
  have len: "(0::nat) < length ?s" by simp
  from normalize_zero_rows_safe [OF len]
  obtain N where run: "normalize_matrix 0 ?s = Inr (length ?s, ?s @ [N])"
    and ln: "length N = length (?s ! 0)"
    and rows: "\<forall>i < length (?s ! 0).
              (sum_list (?s ! 0 ! i) \<noteq> 0 \<longrightarrow>
                 N ! i = map (\<lambda>v. v / sum_list (?s ! 0 ! i)) (?s ! 0 ! i)) \<and>
              (sum_list (?s ! 0 ! i) = 0 \<longrightarrow> N ! i = ?s ! 0 ! i) \<and>
              ((\<forall>v \<in> set (?s ! 0 ! i). v = 0) \<longrightarrow>
                 N ! i = ?s ! 0 ! i \<and> (\<forall>v \<in> set (N ! i). v = 0))"
    by blast
  from rows [THEN spec, of 0] have r0: "N ! 0 = [0, 0]" by simp
  from rows [THEN spec, of 1] have r1: "N ! 1 = [1 / 4, 3 / 4]" by simp
  from ln have "length N = 2" by simp
  with r0 r1 have "N = [[0, 0], [1 / 4, 3 / 4]]"
    by (intro nth_equalityI) (auto simp: less_Suc_eq numeral_2_eq_2)
  with run len show ?thesis by simp
qed

lemma init_value:
  assumes "a < length s"
  shows "init a v l s =
           (if is_normalized (s ! a) then Inr (\<lparr>R = a, d = v, lam = l\<rparr>, s)
            else Inr (\<lparr>R = length s, d = v, lam = l\<rparr>, s @ [map scaled_row (s ! a)]))"
  by (simp add: init_def Let_def normalize_matrix_value [OF assms])

text \<open>
  C9. Normalisation never writes to the caller's matrix. \<open>_normalize\<close> returns a reference
  that the store did not hold before, and every array the store held keeps its values.
  After construction the caller's matrix holds the same values as before, and when the
  constructor normalised, \<open>self.R\<close> is the new array, not the caller's.
\<close>

theorem normalization_keeps_caller_matrix:
  assumes "a < length s"
  shows "(\<exists>b s'. normalize_matrix a s = Inr (b, s') \<and> length s \<le> b \<and> b < length s' \<and>
                 take (length s) s' = s) \<and>
         (\<exists>obj s'. init a v l s = Inr (obj, s') \<and> take (length s) s' = s \<and>
                 s' ! a = s ! a \<and> R obj < length s' \<and>
                 (\<not> is_normalized (s ! a) \<longrightarrow> R obj \<noteq> a \<and> length s \<le> R obj))"
proof (intro conjI)
  have "normalize_matrix a s = Inr (length s, s @ [map scaled_row (s ! a)])"
    by (rule normalize_matrix_value [OF assms])
  then show "\<exists>b s'. normalize_matrix a s = Inr (b, s') \<and> length s \<le> b \<and> b < length s' \<and>
                 take (length s) s' = s"
    by simp
next
  show "\<exists>obj s'. init a v l s = Inr (obj, s') \<and> take (length s) s' = s \<and>
                 s' ! a = s ! a \<and> R obj < length s' \<and>
                 (\<not> is_normalized (s ! a) \<longrightarrow> R obj \<noteq> a \<and> length s \<le> R obj)"
    using assms by (simp add: init_value [OF assms] nth_append)
qed

theorem normalization_keeps_caller_matrix_witness:
  "(0::nat) < length [[[0, 0], [1, 3::real]]] \<and>
   \<not> is_normalized ([[[0, 0], [1, 3]]] ! 0) \<and>
   (\<exists>obj s'. init 0 [4, 2] 0 [[[0, 0], [1, 3]]] = Inr (obj, s') \<and>
        s' ! 0 = [[0, 0], [1, 3]] \<and> R obj \<noteq> 0)"
proof -
  let ?s = "[[[0, 0], [1, 3::real]]]"
  have len: "(0::nat) < length ?s" by simp
  have nrm: "\<not> is_normalized (?s ! 0)"
    by (simp add: is_normalized_def np_allclose_def np_sum_axis1_def)
  from normalization_keeps_caller_matrix [OF len, of "[4, 2]" 0]
  obtain obj s' where "init 0 [4, 2] 0 ?s = Inr (obj, s')" and "s' ! 0 = ?s ! 0"
    and "\<not> is_normalized (?s ! 0) \<longrightarrow> R obj \<noteq> 0 \<and> length ?s \<le> R obj"
    by blast
  with nrm len show ?thesis by auto
qed
section \<open>Normalisation in binary64\<close>

















section \<open>The encoding bound\<close>

lemma define_variables_n_pos:
  assumes "0 < sum_list v"
  shows "define_variables_n v = Inr (\<lfloor>2 powr real_of_int \<lfloor>log 2 (sum_list v)\<rfloor>\<rfloor> - 1)"
proof -
  have "0 \<le> (2::real) powr real_of_int \<lfloor>log 2 (sum_list v)\<rfloor>" by simp
  then show ?thesis
    using assms by (simp add: define_variables_n_def np_log2_def del: powr_ge_zero)
qed

lemma define_variables_n_zero:
  assumes "sum_list v = 0"
  shows "define_variables_n v = Inr (- 1)"
  using assms by (simp add: define_variables_n_def np_log2_def)

lemma define_variables_n_neg:
  assumes "sum_list v < 0"
  shows "define_variables_n v = Inl ValueError"
  using assms by (simp add: define_variables_n_def np_log2_def)

lemma floor_pow2_ge1:
  assumes "1 \<le> (t::real)"
  shows "\<lfloor>(2::real) powr real_of_int \<lfloor>log 2 t\<rfloor>\<rfloor> = 2 ^ nat \<lfloor>log 2 t\<rfloor>"
proof -
  have "0 \<le> log 2 t" using assms by simp
  then have k: "0 \<le> \<lfloor>log 2 t\<rfloor>" by simp
  then have "(2::real) powr real_of_int \<lfloor>log 2 t\<rfloor> = 2 ^ nat \<lfloor>log 2 t\<rfloor>"
    by (simp add: powr_real_of_int)
  moreover have "\<lfloor>(2::real) ^ nat \<lfloor>log 2 t\<rfloor>\<rfloor> = 2 ^ nat \<lfloor>log 2 t\<rfloor>"
    by (metis floor_of_int of_int_numeral of_int_power)
  ultimately show ?thesis by simp
qed

lemma floor_pow2_lt1:
  assumes "0 < (t::real)" and "t < 1"
  shows "\<lfloor>(2::real) powr real_of_int \<lfloor>log 2 t\<rfloor>\<rfloor> = 0"
proof -
  have "log 2 t < 0" using assms by simp
  then have "\<lfloor>log 2 t\<rfloor> < 0" by linarith
  then have "real_of_int \<lfloor>log 2 t\<rfloor> < 0" by simp
  then have "(2::real) powr real_of_int \<lfloor>log 2 t\<rfloor> < 2 powr 0"
    by (intro powr_less_mono) simp_all
  then have "(2::real) powr real_of_int \<lfloor>log 2 t\<rfloor> < 1" by simp
  moreover have "0 \<le> (2::real) powr real_of_int \<lfloor>log 2 t\<rfloor>" by simp
  ultimately show ?thesis by (simp add: floor_eq_iff)
qed

lemma floor_log2_pos_iff:
  assumes "1 \<le> (t::real)"
  shows "1 \<le> \<lfloor>log 2 t\<rfloor> \<longleftrightarrow> 2 \<le> t"
proof -
  have "1 \<le> \<lfloor>log 2 t\<rfloor> \<longleftrightarrow> 1 \<le> log 2 t" by (simp add: le_floor_iff)
  also have "\<dots> \<longleftrightarrow> 2 \<le> t" using assms by (simp add: le_log_iff)
  finally show ?thesis .
qed

lemma pow2_minus1_ge1: "1 \<le> (2::int) ^ k - 1 \<longleftrightarrow> 1 \<le> k"
proof (cases k)
  case 0
  then show ?thesis by simp
next
  case (Suc j)
  have "(1::int) \<le> 2 ^ j" by simp
  then have "(1::int) < 2 * 2 ^ j" by linarith
  then show ?thesis using Suc by simp
qed

lemma define_variables_n_ge1:
  assumes "1 \<le> sum_list v"
  shows "define_variables_n v = Inr (2 ^ nat \<lfloor>log 2 (sum_list v)\<rfloor> - 1)"
  using assms by (simp add: define_variables_n_pos floor_pow2_ge1)

lemma define_variables_n_lt1:
  assumes "0 \<le> sum_list v" and "sum_list v < 1"
  shows "define_variables_n v = Inr (- 1)"
proof (cases "sum_list v = 0")
  case True
  then show ?thesis by (rule define_variables_n_zero)
next
  case False
  with assms have "0 < sum_list v" by simp
  then show ?thesis using assms(2) by (simp add: define_variables_n_pos floor_pow2_lt1)
qed

lemma floor_log2_between:
  assumes "2 ^ k \<le> (t::real)" and "t < 2 ^ Suc k"
  shows "\<lfloor>log 2 t\<rfloor> = int k"
proof -
  have pos: "0 < t" using assms(1) by (smt (verit) zero_less_power)
  have "real k \<le> log 2 t"
    using assms(1) pos by (simp add: le_log_iff powr_realpow)
  moreover have "log 2 t < real (Suc k)"
  proof -
    have "(2::real) powr real (Suc k) = 2 ^ Suc k" by (rule powr_realpow) simp
    with assms(2) have "t < 2 powr real (Suc k)" by simp
    with pos show ?thesis by (simp add: log_less_iff del: of_nat_Suc)
  qed
  ultimately show ?thesis by (simp add: floor_eq_iff)
qed

lemma define_variables_n_between:
  assumes "2 ^ k \<le> sum_list v" and "sum_list v < 2 ^ Suc k"
  shows "define_variables_n v = Inr (2 ^ k - 1)"
proof -
  have "(1::real) \<le> 2 ^ k" by simp
  with assms(1) have "1 \<le> sum_list v" by linarith
  then show ?thesis
    by (simp add: define_variables_n_ge1 floor_log2_between [OF assms])
qed

text \<open>
  C10. The bound \<open>n\<close> that \<open>_define_variables\<close> computes for a measured vector of
  non-negative total \<open>\<Sum>d\<close> is \<open>int(2 ** floor(log2(\<Sum>d))) - 1\<close> and depends on the total only.
  It is at least 1 exactly when \<open>\<Sum>d \<ge> 2\<close>; it is 0 for \<open>1 \<le> \<Sum>d < 2\<close> and \<open>-1\<close> for \<open>\<Sum>d < 1\<close>, so
  below a total of 2 the range \<open>[0, n]\<close> holds no positive count. Every encoded variable is
  given the range \<open>(0, n)\<close>.
\<close>

theorem encoding_bound:
  assumes "0 \<le> sum_list v"
  shows "\<exists>n. define_variables_n v = Inr n \<and>
           (0 < sum_list v \<longrightarrow> n = \<lfloor>2 powr real_of_int \<lfloor>log 2 (sum_list v)\<rfloor>\<rfloor> - 1) \<and>
           (1 \<le> n \<longleftrightarrow> 2 \<le> sum_list v) \<and>
           (1 \<le> sum_list v \<and> sum_list v < 2 \<longrightarrow> n = 0) \<and>
           (sum_list v < 1 \<longrightarrow> n = - 1) \<and>
           (sum_list v < 2 \<longrightarrow> (\<forall>k. 0 < k \<longrightarrow> \<not> k \<le> n)) \<and>
           (\<forall>w. sum_list w = sum_list v \<longrightarrow> define_variables_n w = Inr n) \<and>
           define_variables \<lparr>R = r, d = v, lam = l\<rparr>
             = Inr (map (\<lambda>i. \<lparr>label = ''x'' @ str_nat i, value_range = (0, n)\<rparr>) [0..<length v])"
proof (cases "1 \<le> sum_list v")
  case True
  let ?k = "nat \<lfloor>log 2 (sum_list v)\<rfloor>"
  have n: "define_variables_n v = Inr (2 ^ ?k - 1)"
    by (rule define_variables_n_ge1 [OF True])
  have pos: "0 < sum_list v" using True by simp
  have form: "(2::int) ^ ?k - 1 = \<lfloor>2 powr real_of_int \<lfloor>log 2 (sum_list v)\<rfloor>\<rfloor> - 1"
    by (simp add: floor_pow2_ge1 [OF True])
  have k0: "0 \<le> \<lfloor>log 2 (sum_list v)\<rfloor>" using True by simp
  have ge: "1 \<le> (2::int) ^ ?k - 1 \<longleftrightarrow> 2 \<le> sum_list v"
  proof -
    have "1 \<le> (2::int) ^ ?k - 1 \<longleftrightarrow> 1 \<le> ?k" by (rule pow2_minus1_ge1)
    also have "\<dots> \<longleftrightarrow> 1 \<le> \<lfloor>log 2 (sum_list v)\<rfloor>" using k0 by linarith
    also have "\<dots> \<longleftrightarrow> 2 \<le> sum_list v" by (rule floor_log2_pos_iff [OF True])
    finally show ?thesis .
  qed
  have small: "sum_list v < 2 \<Longrightarrow> (2::int) ^ ?k - 1 = 0"
  proof -
    assume lt: "sum_list v < 2"
    with ge have "\<not> 1 \<le> (2::int) ^ ?k - 1" by simp
    moreover have "(1::int) \<le> 2 ^ ?k" by simp
    ultimately show "(2::int) ^ ?k - 1 = 0" by linarith
  qed
  have same: "\<forall>w. sum_list w = sum_list v \<longrightarrow> define_variables_n w = Inr (2 ^ ?k - 1)"
    using True by (simp add: define_variables_n_ge1)
  have vars: "define_variables \<lparr>R = r, d = v, lam = l\<rparr>
             = Inr (map (\<lambda>i. \<lparr>label = ''x'' @ str_nat i, value_range = (0, 2 ^ ?k - 1)\<rparr>)
                      [0..<length v])"
    by (simp add: define_variables_def n)
  show ?thesis
    apply (rule exI [of _ "2 ^ ?k - 1"])
    using n form ge small same vars True by auto
next
  case False
  then have lt: "sum_list v < 1" by simp
  have n: "define_variables_n v = Inr (- 1)"
    by (rule define_variables_n_lt1 [OF assms lt])
  have form: "0 < sum_list v \<Longrightarrow> (- 1::int) = \<lfloor>2 powr real_of_int \<lfloor>log 2 (sum_list v)\<rfloor>\<rfloor> - 1"
    using lt by (simp add: floor_pow2_lt1)
  have same: "\<forall>w. sum_list w = sum_list v \<longrightarrow> define_variables_n w = Inr (- 1)"
    using assms lt by (simp add: define_variables_n_lt1)
  have vars: "define_variables \<lparr>R = r, d = v, lam = l\<rparr>
             = Inr (map (\<lambda>i. \<lparr>label = ''x'' @ str_nat i, value_range = (0, - 1)\<rparr>)
                      [0..<length v])"
    by (simp add: define_variables_def n)
  show ?thesis
    apply (rule exI [of _ "- 1"])
    using n form same vars lt by auto
qed

theorem encoding_bound_witness:
  "(0::real) \<le> sum_list [3 / 2] \<and> define_variables_n [3 / 2] = Inr 0 \<and>
   (0::real) \<le> sum_list [1 / 2] \<and> define_variables_n [1 / 2] = Inr (- 1) \<and>
   (0::real) \<le> sum_list [4] \<and> (\<exists>n. define_variables_n [4] = Inr n \<and> 1 \<le> n)"
proof -
  have a: "(0::real) \<le> sum_list [3 / 2]" and b: "(0::real) \<le> sum_list [1 / 2]"
    and c: "(0::real) \<le> sum_list [4]" by simp_all
  from encoding_bound [OF a, of 0 0]
  obtain n1 where "define_variables_n [3 / 2] = Inr n1"
    and "1 \<le> sum_list [3 / 2::real] \<and> sum_list [3 / 2::real] < 2 \<longrightarrow> n1 = 0"
    by blast
  then have r1: "define_variables_n [3 / 2] = Inr 0" by simp
  from encoding_bound [OF b, of 0 0]
  obtain n2 where "define_variables_n [1 / 2] = Inr n2"
    and "sum_list [1 / 2::real] < 1 \<longrightarrow> n2 = - 1"
    by blast
  then have r2: "define_variables_n [1 / 2] = Inr (- 1)" by simp
  from encoding_bound [OF c, of 0 0]
  obtain n3 where "define_variables_n [4] = Inr n3"
    and "1 \<le> n3 \<longleftrightarrow> 2 \<le> sum_list [4::real]"
    by blast
  then have r3: "\<exists>n. define_variables_n [4] = Inr n \<and> 1 \<le> n" by simp
  from a b c r1 r2 r3 show ?thesis by blast
qed
section \<open>Logarithmic encoding\<close>

lemma log_decode_Nil: "log_decode [] = 0"
  by (simp add: log_decode_def)

lemma log_decode_Cons: "log_decode (b # bs) = of_bool b + 2 * log_decode bs"
proof -
  have "[0..<length (b # bs)] = 0 # map Suc [0..<length bs]"
    by (simp add: upt_conv_Cons map_Suc_upt del: upt_Suc)
  then have "log_decode (b # bs)
               = of_bool b + (\<Sum>i\<leftarrow>[0..<length bs]. of_bool (bs ! i) * 2 ^ Suc i)"
    by (simp add: log_decode_def comp_def del: upt_Suc)
  also have "(\<Sum>i\<leftarrow>[0..<length bs]. of_bool (bs ! i) * 2 ^ Suc i) = 2 * log_decode bs"
    by (simp add: log_decode_def sum_list_const_mult mult.left_commute del: upt_Suc)
  finally show ?thesis .
qed

lemma log_decode_encode: "log_decode (log_encode k v) = v mod 2 ^ k"
proof (induction k arbitrary: v)
  case 0
  then show ?case by (simp add: log_decode_Nil)
next
  case (Suc k)
  have "v mod (2 * 2 ^ k) = v mod 2 + 2 * ((v div 2) mod 2 ^ k)"
    by (simp add: mod_mult2_eq)
  then show ?case
    by (simp add: log_decode_Cons Suc.IH odd_iff_mod_2_eq_one)
qed

lemma length_log_encode: "length (log_encode k v) = k"
  by (induction k arbitrary: v) simp_all

lemma lt_pow2_num_digits: "n < 2 ^ num_digits n"
proof (induction n rule: num_digits.induct)
  case (1 n)
  show ?case
  proof (cases "n = 0")
    case True
    then show ?thesis by (simp add: num_digits.simps)
  next
    case False
    then have "n div 2 < 2 ^ num_digits (n div 2)" by (rule "1.IH")
    then have "n < 2 * 2 ^ num_digits (n div 2)" by linarith
    then show ?thesis using False by (simp add: num_digits.simps [of n])
  qed
qed

lemma num_digits_3: "num_digits 3 = 2"
  by (simp add: num_digits.simps)

text \<open>
  C5. Encoding round-trip. With \<open>n\<close> the bound that \<open>_define_variables\<close> computes, every
  integer \<open>k\<close> of the closed range \<open>[0, n]\<close> is encoded into as many binary digits as \<open>n\<close> has,
  and the weighted sum of these digits is \<open>k\<close> again. The encoding and the decoding rule are
  the ones the specification describes; the bound is the one of the source.
\<close>

theorem encoding_round_trip:
  assumes "define_variables_n v = Inr n" and "0 \<le> k" and "k \<le> n"
  shows "length (log_encode (num_digits (nat n)) (nat k)) = num_digits (nat n) \<and>
         int (log_decode (log_encode (num_digits (nat n)) (nat k))) = k"
proof -
  have "nat k \<le> nat n" using assms(2,3) by simp
  also have "nat n < 2 ^ num_digits (nat n)" by (rule lt_pow2_num_digits)
  finally have "nat k mod 2 ^ num_digits (nat n) = nat k" by simp
  then show ?thesis using assms(2) by (simp add: log_decode_encode length_log_encode)
qed

theorem encoding_round_trip_witness:
  "define_variables_n [4] = Inr 3 \<and> (0::int) \<le> 2 \<and> (2::int) \<le> 3 \<and>
   log_encode (num_digits (nat 3)) (nat 2) = [False, True] \<and>
   int (log_decode (log_encode (num_digits (nat 3)) (nat 2))) = 2"
proof -
  have n: "define_variables_n [4] = Inr 3"
    using define_variables_n_between [of 2 "[4]"] by simp
  have enc: "log_encode (num_digits (nat 3)) (nat 2) = [False, True]"
    by (simp add: num_digits_3 numeral_2_eq_2)
  from encoding_round_trip [OF n, of 2] n enc show ?thesis by simp
qed
section \<open>The Hamiltonian\<close>

lemma nrows_tabulate2: "nrows (tabulate2 r c f) = r"
  by (simp add: nrows_def tabulate2_def)

lemma ncols_tabulate2: "0 < r \<Longrightarrow> ncols (tabulate2 r c f) = c"
  by (simp add: ncols_def tabulate2_def upt_conv_Cons del: upt_Suc)

lemma nth_tabulate2: "i < r \<Longrightarrow> j < c \<Longrightarrow> tabulate2 r c f ! i ! j = f i j"
  by (simp add: tabulate2_def)

lemma tabulate2_cong:
  assumes "\<And>i j. i < r \<Longrightarrow> j < c \<Longrightarrow> f i j = g i j"
  shows "tabulate2 r c f = tabulate2 r c g"
  using assms by (simp add: tabulate2_def)

lemma is_matrix_tabulate2:
  assumes "is_matrix M"
  shows "M = tabulate2 (nrows M) (ncols M) (\<lambda>i j. M ! i ! j)"
proof (rule nth_equalityI)
  show "length M = length (tabulate2 (nrows M) (ncols M) (\<lambda>i j. M ! i ! j))"
    by (simp add: tabulate2_def nrows_def)
next
  fix i assume i: "i < length M"
  then have "length (M ! i) = ncols M"
    using assms by (simp add: is_matrix_def list_all_length)
  then have "M ! i = map (\<lambda>j. M ! i ! j) [0..<ncols M]"
    by (metis map_nth)
  then show "M ! i = tabulate2 (nrows M) (ncols M) (\<lambda>i j. M ! i ! j) ! i"
    using i by (simp add: tabulate2_def nrows_def)
qed

lemma sum_list_upt_cong:
  assumes "\<And>k. k < n \<Longrightarrow> f k = (g k :: real)"
  shows "(\<Sum>k\<leftarrow>[0..<n]. f k) = (\<Sum>k\<leftarrow>[0..<n]. g k)"
  using assms by (intro arg_cong [where f = sum_list] map_cong) simp_all

lemma map_upt_cong:
  assumes "\<And>k. k < n \<Longrightarrow> f k = g k"
  shows "map f [0..<n] = map g [0..<n]"
  using assms by (intro map_cong) simp_all

lemma tabulate2_row: "i < r \<Longrightarrow> tabulate2 r c f ! i = map (f i) [0..<c]"
  by (simp add: tabulate2_def)

lemma tabulate2_column:
  assumes "j < c"
  shows "map (\<lambda>row. row ! j) (tabulate2 r c f) = map (\<lambda>i. f i j) [0..<r]"
  using assms by (simp add: tabulate2_def)

lemma np_T_tabulate2:
  assumes "0 < r"
  shows "np_T (tabulate2 r c f) = tabulate2 c r (\<lambda>j i. f i j)"
proof -
  have "np_T (tabulate2 r c f) = map (\<lambda>j. map (\<lambda>row. row ! j) (tabulate2 r c f)) [0..<c]"
    by (simp only: np_T_def ncols_tabulate2 [OF assms])
  also have "\<dots> = map (\<lambda>j. map (\<lambda>i. f i j) [0..<r]) [0..<c]"
    by (rule map_upt_cong) (rule tabulate2_column)
  finally show ?thesis by (simp only: tabulate2_def)
qed

lemma matvec_tabulate2:
  assumes "0 < r" and "length v = c"
  shows "matvec (tabulate2 r c f) v = Inr (map (\<lambda>i. \<Sum>k\<leftarrow>[0..<c]. f i k * v ! k) [0..<r])"
proof -
  have "matvec (tabulate2 r c f) v
          = Inr (map (\<lambda>row. \<Sum>k\<leftarrow>[0..<c]. row ! k * v ! k) (tabulate2 r c f))"
    using assms(2) by (simp only: matvec_def ncols_tabulate2 [OF assms(1)]) simp
  also have "map (\<lambda>row. \<Sum>k\<leftarrow>[0..<c]. row ! k * v ! k) (tabulate2 r c f)
               = map (\<lambda>i. \<Sum>k\<leftarrow>[0..<c]. map (f i) [0..<c] ! k * v ! k) [0..<r]"
    by (simp add: tabulate2_def comp_def)
  also have "\<dots> = map (\<lambda>i. \<Sum>k\<leftarrow>[0..<c]. f i k * v ! k) [0..<r]"
    by (intro map_upt_cong sum_list_upt_cong) simp
  finally show ?thesis .
qed

lemma matmul_tabulate2:
  assumes "0 < a" and "0 < b"
  shows "matmul (tabulate2 a b f) (tabulate2 b c g)
           = Inr (tabulate2 a c (\<lambda>i j. \<Sum>k\<leftarrow>[0..<b]. f i k * g k j))"
proof -
  have "matmul (tabulate2 a b f) (tabulate2 b c g)
          = Inr (map (\<lambda>row. map (\<lambda>j. \<Sum>k\<leftarrow>[0..<b]. row ! k * tabulate2 b c g ! k ! j) [0..<c])
                   (tabulate2 a b f))"
    by (simp only: matmul_def ncols_tabulate2 [OF assms(1)] ncols_tabulate2 [OF assms(2)]
          nrows_tabulate2) simp
  also have "map (\<lambda>row. map (\<lambda>j. \<Sum>k\<leftarrow>[0..<b]. row ! k * tabulate2 b c g ! k ! j) [0..<c])
                   (tabulate2 a b f)
               = map (\<lambda>i. map (\<lambda>j. \<Sum>k\<leftarrow>[0..<b]. map (f i) [0..<b] ! k * tabulate2 b c g ! k ! j)
                              [0..<c]) [0..<a]"
    by (simp add: tabulate2_def [of a b f] comp_def)
  also have "\<dots> = map (\<lambda>i. map (\<lambda>j. \<Sum>k\<leftarrow>[0..<b]. f i k * g k j) [0..<c]) [0..<a]"
    by (intro map_upt_cong sum_list_upt_cong) (simp add: nth_tabulate2)
  finally show ?thesis by (simp only: tabulate2_def)
qed

lemma np_scale_tabulate2: "np_scale l (tabulate2 r c f) = tabulate2 r c (\<lambda>i j. l * f i j)"
  by (simp add: np_scale_def tabulate2_def)

lemma np_add_tabulate2:
  shows "np_add (tabulate2 r c f) (tabulate2 r c g) = Inr (tabulate2 r c (\<lambda>i j. f i j + g i j))"
proof (cases "r = 0")
  case True
  then show ?thesis by (simp add: np_add_def tabulate2_def nrows_def ncols_def)
next
  case False
  then have r: "0 < r" by simp
  have entry: "tabulate2 r c f ! (if r = 1 then 0 else i) ! (if c = 1 then 0 else j) = f i j"
    if "i < r" "j < c" for i j f
  proof -
    have "(if r = 1 then 0 else i) = i" using that by auto
    moreover have "(if c = 1 then 0 else j) = j" using that by auto
    ultimately show ?thesis using that by (simp add: nth_tabulate2)
  qed
  have "np_add (tabulate2 r c f) (tabulate2 r c g)
          = Inr (map (\<lambda>i. map (\<lambda>j. tabulate2 r c f ! (if r = 1 then 0 else i) ! (if c = 1 then 0 else j)
                                  + tabulate2 r c g ! (if r = 1 then 0 else i) ! (if c = 1 then 0 else j))
                            [0..<c]) [0..<r])"
    by (simp add: np_add_def Let_def nrows_tabulate2 ncols_tabulate2 [OF r])
  also have "\<dots> = Inr (tabulate2 r c (\<lambda>i j. f i j + g i j))"
    unfolding tabulate2_def by (simp add: entry cong: map_cong)
  finally show ?thesis .
qed

lemma np_diag_tabulate2:
  "np_diag v k = tabulate2 (length v + nat \<bar>k\<bar>) (length v + nat \<bar>k\<bar>)
                   (\<lambda>i j. if int j - int i = k then v ! (if 0 \<le> k then i else j) else 0)"
  by (simp add: np_diag_def tabulate2_def Let_def)

lemma get_laplacian_value:
  assumes "0 < n"
  shows "get_laplacian n = Inr (tabulate2 n n second_difference)"
proof -
  let ?dg = "map (\<lambda>v. v * (- 2)) (np_ones n)"
  let ?on = "np_ones (n - 1)"
  have d0: "np_diag ?dg 0 = tabulate2 n n (\<lambda>i j. if i = j then - 2 else 0)"
    unfolding np_diag_tabulate2
    by (simp add: np_ones_def) (rule tabulate2_cong, auto simp: np_ones_def)
  have d1: "np_diag ?on 1 = tabulate2 n n (\<lambda>i j. if j = Suc i then 1 else 0)"
    unfolding np_diag_tabulate2 using assms
    by (simp add: np_ones_def) (rule tabulate2_cong, auto simp: np_ones_def)
  have d2: "np_diag ?on (- 1) = tabulate2 n n (\<lambda>i j. if i = Suc j then 1 else 0)"
    unfolding np_diag_tabulate2 using assms
    by (simp add: np_ones_def) (rule tabulate2_cong, auto simp: np_ones_def)
  have "get_laplacian n
          = Inr (tabulate2 n n (\<lambda>i j. (if i = j then - 2 else 0) + (if j = Suc i then 1 else 0)
                                      + (if i = Suc j then 1 else 0)))"
    unfolding get_laplacian_def Let_def d0 d1 d2 using assms by (simp add: np_add_tabulate2)
  also have "tabulate2 n n (\<lambda>i j. (if i = j then - 2 else 0) + (if j = Suc i then 1 else 0)
                                      + (if i = Suc j then 1 else 0))
               = tabulate2 n n second_difference"
    by (rule tabulate2_cong) (simp add: second_difference_def)
  finally show ?thesis .
qed

lemma linear_terms_eval:
  assumes "\<forall>i \<in> set ks. i < length a"
  shows "\<exists>h'. linear_terms a x ks h = Inr h' \<and>
           (\<forall>env. eval env h' = eval env h + (\<Sum>i\<leftarrow>ks. a ! i * env (x ! i))) \<and>
           set (expr_vars h') = set (expr_vars h) \<union> (\<lambda>i. x ! i) ` set ks"
  using assms
proof (induction ks arbitrary: h)
  case Nil
  then show ?case by auto
next
  case (Cons i ks)
  let ?h1 = "Add h (Mul (Num (a ! i)) (Var (x ! i)))"
  from Cons.prems have "\<forall>i \<in> set ks. i < length a" by simp
  from Cons.IH [OF this, of ?h1]
  obtain h' where run: "linear_terms a x ks ?h1 = Inr h'"
    and ev: "\<forall>env. eval env h' = eval env ?h1 + (\<Sum>i\<leftarrow>ks. a ! i * env (x ! i))"
    and vs: "set (expr_vars h') = set (expr_vars ?h1) \<union> (\<lambda>i. x ! i) ` set ks"
    by blast
  from Cons.prems have "linear_terms a x (i # ks) h = Inr h'" by (simp add: run)
  moreover from ev have "\<forall>env. eval env h' = eval env h + (\<Sum>i\<leftarrow>i # ks. a ! i * env (x ! i))"
    by (simp add: algebra_simps)
  moreover from vs have "set (expr_vars h') = set (expr_vars h) \<union> (\<lambda>i. x ! i) ` set (i # ks)"
    by auto
  ultimately show ?case by blast
qed

lemma quadratic_row_eval:
  assumes "i < nrows B" and "\<forall>j \<in> set ks. j < ncols B"
  shows "\<exists>h'. quadratic_row B x i ks h = Inr h' \<and>
           (\<forall>env. eval env h' = eval env h + (\<Sum>j\<leftarrow>ks. B ! i ! j * env (x ! i) * env (x ! j))) \<and>
           set (expr_vars h) \<subseteq> set (expr_vars h') \<and>
           set (expr_vars h') \<subseteq> set (expr_vars h) \<union> {x ! i} \<union> (\<lambda>j. x ! j) ` set ks"
  using assms(2)
proof (induction ks arbitrary: h)
  case Nil
  then show ?case by auto
next
  case (Cons j ks)
  let ?h1 = "Add h (Mul (Mul (Num (B ! i ! j)) (Var (x ! i))) (Var (x ! j)))"
  from Cons.prems have "\<forall>j \<in> set ks. j < ncols B" by simp
  from Cons.IH [OF this, of ?h1]
  obtain h' where run: "quadratic_row B x i ks ?h1 = Inr h'"
    and ev: "\<forall>env. eval env h' = eval env ?h1 + (\<Sum>j\<leftarrow>ks. B ! i ! j * env (x ! i) * env (x ! j))"
    and lo: "set (expr_vars ?h1) \<subseteq> set (expr_vars h')"
    and up: "set (expr_vars h') \<subseteq> set (expr_vars ?h1) \<union> {x ! i} \<union> (\<lambda>j. x ! j) ` set ks"
    by blast
  from Cons.prems assms(1) have "quadratic_row B x i (j # ks) h = Inr h'" by (simp add: run)
  moreover from ev have "\<forall>env. eval env h'
      = eval env h + (\<Sum>j\<leftarrow>j # ks. B ! i ! j * env (x ! i) * env (x ! j))"
    by (simp add: algebra_simps)
  moreover from lo have "set (expr_vars h) \<subseteq> set (expr_vars h')" by auto
  moreover from up have "set (expr_vars h') \<subseteq> set (expr_vars h) \<union> {x ! i} \<union> (\<lambda>j. x ! j) ` set (j # ks)"
    by auto
  ultimately show ?case by blast
qed

lemma quadratic_terms_eval:
  assumes "\<forall>i \<in> set ks. i < nrows B" and "n \<le> ncols B"
  shows "\<exists>h'. quadratic_terms B x n ks h = Inr h' \<and>
           (\<forall>env. eval env h' = eval env h
               + (\<Sum>i\<leftarrow>ks. \<Sum>j\<leftarrow>[0..<n]. B ! i ! j * env (x ! i) * env (x ! j))) \<and>
           set (expr_vars h) \<subseteq> set (expr_vars h') \<and>
           set (expr_vars h') \<subseteq> set (expr_vars h) \<union> (\<lambda>i. x ! i) ` set ks \<union> (\<lambda>j. x ! j) ` {..<n}"
  using assms(1)
proof (induction ks arbitrary: h)
  case Nil
  then show ?case by auto
next
  case (Cons i ks)
  from Cons.prems have i: "i < nrows B" by simp
  from assms(2) have cols: "\<forall>j \<in> set [0..<n]. j < ncols B" by simp
  from quadratic_row_eval [OF i cols, of x h]
  obtain h1 where r1: "quadratic_row B x i [0..<n] h = Inr h1"
    and e1: "\<forall>env. eval env h1 = eval env h + (\<Sum>j\<leftarrow>[0..<n]. B ! i ! j * env (x ! i) * env (x ! j))"
    and l1: "set (expr_vars h) \<subseteq> set (expr_vars h1)"
    and u1: "set (expr_vars h1) \<subseteq> set (expr_vars h) \<union> {x ! i} \<union> (\<lambda>j. x ! j) ` set [0..<n]"
    by blast
  from Cons.prems have "\<forall>i \<in> set ks. i < nrows B" by simp
  from Cons.IH [OF this, of h1]
  obtain h' where r2: "quadratic_terms B x n ks h1 = Inr h'"
    and e2: "\<forall>env. eval env h' = eval env h1
               + (\<Sum>i\<leftarrow>ks. \<Sum>j\<leftarrow>[0..<n]. B ! i ! j * env (x ! i) * env (x ! j))"
    and l2: "set (expr_vars h1) \<subseteq> set (expr_vars h')"
    and u2: "set (expr_vars h') \<subseteq> set (expr_vars h1) \<union> (\<lambda>i. x ! i) ` set ks \<union> (\<lambda>j. x ! j) ` {..<n}"
    by blast
  have "quadratic_terms B x n (i # ks) h = Inr h'" by (simp add: r1 r2)
  moreover from e1 e2 have "\<forall>env. eval env h' = eval env h
               + (\<Sum>i\<leftarrow>i # ks. \<Sum>j\<leftarrow>[0..<n]. B ! i ! j * env (x ! i) * env (x ! j))"
    by (simp add: algebra_simps)
  moreover from l1 l2 have "set (expr_vars h) \<subseteq> set (expr_vars h')" by blast
  moreover have "set (expr_vars h')
      \<subseteq> set (expr_vars h) \<union> (\<lambda>i. x ! i) ` set (i # ks) \<union> (\<lambda>j. x ! j) ` {..<n}"
  proof -
    have "set [0..<n] = {..<n}" by auto
    with u1 u2 show ?thesis by auto
  qed
  ultimately show ?case by blast
qed

lemma sum_list_upt_lessThan: "(\<Sum>k\<leftarrow>[0..<n]. f k) = (\<Sum>k<n. (f k :: real))"
  by (simp add: interv_sum_list_conv_sum_set_nat atLeast0LessThan)

lemma quadratic_coefficient_fun:
  "quadratic_coefficient M l n
     = (\<lambda>i j. (\<Sum>k<length M. M ! k ! i * M ! k ! j)
              + l * (\<Sum>k<n. second_difference k i * second_difference k j))"
  by (intro ext) (simp add: quadratic_coefficient_def)

lemma hamiltonian_B_value:
  assumes "is_matrix (s ! R self)" and "0 < ncols (s ! R self)" and "0 < n"
    and "n = ncols (s ! R self)"
  shows "hamiltonian_B self (tabulate2 n n second_difference) s
           = Inr (tabulate2 n n (quadratic_coefficient (s ! R self) (lam self) n))"
    and "matmul (np_T (s ! R self)) (s ! R self)
           = Inr (tabulate2 n n (quadratic_coefficient (s ! R self) 0 n))"
proof -
  let ?M = "s ! R self"
  let ?m = "nrows ?M"
  have m: "0 < ?m" using assms(2) by (auto simp: ncols_def nrows_def split: list.splits)
  have M: "?M = tabulate2 ?m n (\<lambda>i j. ?M ! i ! j)"
    using is_matrix_tabulate2 [OF assms(1)] assms(4) by simp
  have T: "np_T ?M = tabulate2 n ?m (\<lambda>j i. ?M ! i ! j)"
    by (subst M) (rule np_T_tabulate2 [OF m])
  have "matmul (np_T ?M) ?M
          = matmul (tabulate2 n ?m (\<lambda>j i. ?M ! i ! j)) (tabulate2 ?m n (\<lambda>i j. ?M ! i ! j))"
    using T M by simp
  also have "\<dots> = Inr (tabulate2 n n (\<lambda>i j. \<Sum>k\<leftarrow>[0..<?m]. ?M ! k ! i * ?M ! k ! j))"
    by (rule matmul_tabulate2 [OF assms(3) m])
  finally have RtR: "matmul (np_T ?M) ?M
          = Inr (tabulate2 n n (\<lambda>i j. \<Sum>k<?m. ?M ! k ! i * ?M ! k ! j))"
    by (simp add: sum_list_upt_lessThan)
  have "matmul (np_T (tabulate2 n n second_difference)) (tabulate2 n n second_difference)
          = Inr (tabulate2 n n (\<lambda>i j. \<Sum>k\<leftarrow>[0..<n]. second_difference k i * second_difference k j))"
    by (simp only: np_T_tabulate2 [OF assms(3)] matmul_tabulate2 [OF assms(3) assms(3)])
  then have GtG: "matmul (np_T (tabulate2 n n second_difference)) (tabulate2 n n second_difference)
          = Inr (tabulate2 n n (\<lambda>i j. \<Sum>k<n. second_difference k i * second_difference k j))"
    by (simp add: sum_list_upt_lessThan)
  show "hamiltonian_B self (tabulate2 n n second_difference) s
           = Inr (tabulate2 n n (quadratic_coefficient ?M (lam self) n))"
    by (simp add: hamiltonian_B_def RtR GtG np_scale_tabulate2 np_add_tabulate2
          quadratic_coefficient_fun nrows_def)
  show "matmul (np_T ?M) ?M = Inr (tabulate2 n n (quadratic_coefficient ?M 0 n))"
    by (simp add: RtR quadratic_coefficient_fun nrows_def)
qed

lemma linear_coefficient_value:
  assumes "is_matrix (s ! R self)" and "0 < ncols (s ! R self)"
    and "nrows (s ! R self) = length (d self)" and "n = ncols (s ! R self)"
  shows "matvec (np_T (s ! R self)) (d self)
           = Inr (map (\<lambda>i. \<Sum>k<length (s ! R self). s ! R self ! k ! i * d self ! k) [0..<n])"
proof -
  let ?M = "s ! R self"
  let ?m = "nrows ?M"
  have m: "0 < ?m" using assms(2) by (auto simp: ncols_def nrows_def split: list.splits)
  have n: "0 < n" using assms(2,4) by simp
  have M: "?M = tabulate2 ?m n (\<lambda>i j. ?M ! i ! j)"
    using is_matrix_tabulate2 [OF assms(1)] assms(4) by simp
  have T: "np_T ?M = tabulate2 n ?m (\<lambda>j i. ?M ! i ! j)"
    by (subst M) (rule np_T_tabulate2 [OF m])
  have "matvec (np_T ?M) (d self)
          = Inr (map (\<lambda>i. \<Sum>k\<leftarrow>[0..<?m]. ?M ! k ! i * d self ! k) [0..<n])"
    unfolding T using assms(3) by (intro matvec_tabulate2 [OF n]) simp
  then show ?thesis by (simp add: sum_list_upt_lessThan nrows_def)
qed

lemma define_hamiltonian_value:
  assumes "is_matrix (s ! R self)" and "0 < ncols (s ! R self)"
    and "nrows (s ! R self) = length (d self)" and "length x = ncols (s ! R self)"
  shows "\<exists>h. define_hamiltonian self x s = Inr h \<and>
           (\<forall>env. eval env h
              = quadratic_form (s ! R self) (d self) (lam self) (length x) (\<lambda>i. env (x ! i))) \<and>
           set (expr_vars h) = set x"
proof -
  let ?M = "s ! R self"
  let ?n = "length x"
  let ?a = "map (\<lambda>v. - 2 * v) (map (\<lambda>i. \<Sum>k<length ?M. ?M ! k ! i * d self ! k) [0..<?n])"
  let ?B = "tabulate2 ?n ?n (quadratic_coefficient ?M (lam self) ?n)"
  have n: "0 < ?n" using assms(2,4) by simp
  have mv: "matvec (np_T ?M) (d self)
              = Inr (map (\<lambda>i. \<Sum>k<length ?M. ?M ! k ! i * d self ! k) [0..<?n])"
    by (rule linear_coefficient_value [OF assms(1,2,3,4)])
  have "\<forall>i \<in> set [0..<?n]. i < length ?a" by simp
  from linear_terms_eval [OF this, of x "Num 0"]
  obtain h1 where l1: "linear_terms ?a x [0..<?n] (Num 0) = Inr h1"
    and e1: "\<forall>env. eval env h1 = eval env (Num 0) + (\<Sum>i\<leftarrow>[0..<?n]. ?a ! i * env (x ! i))"
    and v1: "set (expr_vars h1) = set (expr_vars (Num 0)) \<union> (\<lambda>i. x ! i) ` set [0..<?n]"
    by blast
  have lap: "get_laplacian ?n = Inr (tabulate2 ?n ?n second_difference)"
    by (rule get_laplacian_value [OF n])
  have hB: "hamiltonian_B self (tabulate2 ?n ?n second_difference) s = Inr ?B"
    by (rule hamiltonian_B_value(1) [OF assms(1,2) n assms(4)])
  have rows: "\<forall>i \<in> set [0..<?n]. i < nrows ?B" by (simp add: nrows_tabulate2)
  have cols: "?n \<le> ncols ?B" by (simp add: ncols_tabulate2 [OF n])
  from quadratic_terms_eval [OF rows cols, of x h1]
  obtain h where q: "quadratic_terms ?B x ?n [0..<?n] h1 = Inr h"
    and e2: "\<forall>env. eval env h = eval env h1
               + (\<Sum>i\<leftarrow>[0..<?n]. \<Sum>j\<leftarrow>[0..<?n]. ?B ! i ! j * env (x ! i) * env (x ! j))"
    and lo: "set (expr_vars h1) \<subseteq> set (expr_vars h)"
    and up: "set (expr_vars h) \<subseteq> set (expr_vars h1) \<union> (\<lambda>i. x ! i) ` set [0..<?n]
                                   \<union> (\<lambda>j. x ! j) ` {..<?n}"
    by blast
  have run: "define_hamiltonian self x s = Inr h"
    by (simp only: define_hamiltonian_def Let_def mv sum.case l1 lap hB q)
  have allx: "(\<lambda>i. x ! i) ` {..<?n} = set x"
    by (auto simp: set_conv_nth)
  have vars: "set (expr_vars h) = set x"
  proof -
    have "set [0..<?n] = {..<?n}" by auto
    with v1 lo up allx show ?thesis by auto
  qed
  have lin: "(\<Sum>i\<leftarrow>[0..<?n]. ?a ! i * env (x ! i))
               = (\<Sum>i<?n. linear_coefficient ?M (d self) i * env (x ! i))" for env
    unfolding sum_list_upt_lessThan
    by (rule sum.cong) (simp_all add: linear_coefficient_def)
  have quad: "(\<Sum>i\<leftarrow>[0..<?n]. \<Sum>j\<leftarrow>[0..<?n]. ?B ! i ! j * env (x ! i) * env (x ! j))
               = (\<Sum>i<?n. \<Sum>j<?n. quadratic_coefficient ?M (lam self) ?n i j
                                     * env (x ! i) * env (x ! j))" for env
    unfolding sum_list_upt_lessThan
    by (intro sum.cong refl) (simp add: nth_tabulate2)
  have "\<forall>env. eval env h = quadratic_form ?M (d self) (lam self) ?n (\<lambda>i. env (x ! i))"
    unfolding e2 [rule_format] e1 [rule_format] lin quad quadratic_form_def by simp
  with run vars show ?thesis by blast
qed

lemma lessThan_2: "{..<2::nat} = {0, 1}"
  by auto

text \<open>
  C2. For a response \<open>R\<close> with as many rows as \<open>d\<close> has entries and a sequence \<open>x\<close> of as
  many variables as \<open>R\<close> has columns, \<open>_define_hamiltonian\<close> returns an expression whose value
  under every assignment of the variables is \<open>a\<^sup>t x + x\<^sup>t B x\<close> with \<open>a = -2 \<cdot> R\<^sup>t d\<close> and
  \<open>B = R\<^sup>t R + lam \<cdot> G\<^sup>t G\<close>. \<open>_get_laplacian\<close> returns the square matrix \<open>G\<close> with -2 on the
  diagonal, 1 on the first off-diagonals and 0 elsewhere. The matrix \<open>B\<close> that the code
  computes is affine in \<open>lam\<close>, and for \<open>lam = 0\<close> it is the very result of \<open>R.T @ R\<close>.
\<close>

theorem hamiltonian_quadratic_form:
  assumes "is_matrix (s ! R self)" and "0 < ncols (s ! R self)"
    and "nrows (s ! R self) = length (d self)" and "length x = ncols (s ! R self)"
  shows "(\<exists>h. define_hamiltonian self x s = Inr h \<and>
            (\<forall>env. eval env h
               = quadratic_form (s ! R self) (d self) (lam self) (length x) (\<lambda>i. env (x ! i)))) \<and>
         get_laplacian (length x) = Inr (tabulate2 (length x) (length x) second_difference) \<and>
         (\<forall>l. hamiltonian_B (self\<lparr>lam := l\<rparr>) (tabulate2 (length x) (length x) second_difference) s
                = Inr (tabulate2 (length x) (length x)
                        (quadratic_coefficient (s ! R self) l (length x)))) \<and>
         (\<forall>l i j. quadratic_coefficient (s ! R self) l (length x) i j
                = quadratic_coefficient (s ! R self) 0 (length x) i j
                  + l * (\<Sum>k<length x. second_difference k i * second_difference k j)) \<and>
         hamiltonian_B (self\<lparr>lam := 0\<rparr>) (tabulate2 (length x) (length x) second_difference) s
           = matmul (np_T (s ! R self)) (s ! R self)"
proof (intro conjI allI)
  show "\<exists>h. define_hamiltonian self x s = Inr h \<and>
            (\<forall>env. eval env h
               = quadratic_form (s ! R self) (d self) (lam self) (length x) (\<lambda>i. env (x ! i)))"
    using define_hamiltonian_value [OF assms] by blast
  have n: "0 < length x" using assms(2,4) by simp
  show "get_laplacian (length x) = Inr (tabulate2 (length x) (length x) second_difference)"
    by (rule get_laplacian_value [OF n])
  have B: "hamiltonian_B (self\<lparr>lam := l\<rparr>) (tabulate2 (length x) (length x) second_difference) s
            = Inr (tabulate2 (length x) (length x)
                    (quadratic_coefficient (s ! R self) l (length x)))" for l
    using hamiltonian_B_value(1) [of s "self\<lparr>lam := l\<rparr>" "length x"] assms(1,2,4) n by simp
  show "hamiltonian_B (self\<lparr>lam := l\<rparr>) (tabulate2 (length x) (length x) second_difference) s
            = Inr (tabulate2 (length x) (length x)
                    (quadratic_coefficient (s ! R self) l (length x)))" for l
    by (rule B)
  show "quadratic_coefficient (s ! R self) l (length x) i j
                = quadratic_coefficient (s ! R self) 0 (length x) i j
                  + l * (\<Sum>k<length x. second_difference k i * second_difference k j)" for l i j
    by (simp add: quadratic_coefficient_def)
  show "hamiltonian_B (self\<lparr>lam := 0\<rparr>) (tabulate2 (length x) (length x) second_difference) s
           = matmul (np_T (s ! R self)) (s ! R self)"
    by (simp only: B hamiltonian_B_value(2) [OF assms(1,2) n assms(4)])
qed

theorem hamiltonian_quadratic_form_witness:
  "is_matrix ([[[1 / 2, 1 / 2], [1 / 4, 3 / 4]]] ! R \<lparr>R = 0, d = [4, 2], lam = 1\<rparr>) \<and>
   0 < ncols ([[[1 / 2, 1 / 2], [1 / 4, 3 / 4]]] ! R \<lparr>R = 0, d = [4, 2], lam = 1\<rparr>) \<and>
   nrows ([[[1 / 2, 1 / 2], [1 / 4, 3 / 4]]] ! R \<lparr>R = 0, d = [4, 2], lam = 1\<rparr>)
     = length (d \<lparr>R = 0, d = [4, 2], lam = 1\<rparr>) \<and>
   length [\<lparr>label = ''x0'', value_range = (0, 3)\<rparr>, \<lparr>label = ''x1'', value_range = (0, 3)\<rparr>]
     = ncols ([[[1 / 2, 1 / 2], [1 / 4, 3 / 4]]] ! R \<lparr>R = 0, d = [4, 2], lam = 1\<rparr>) \<and>
   (\<exists>h. define_hamiltonian \<lparr>R = 0, d = [4, 2], lam = 1\<rparr>
           [\<lparr>label = ''x0'', value_range = (0, 3)\<rparr>, \<lparr>label = ''x1'', value_range = (0, 3)\<rparr>]
           [[[1 / 2, 1 / 2], [1 / 4, 3 / 4]]] = Inr h \<and>
        eval (\<lambda>_. 1) h = - 8)"
proof -
  let ?s = "[[[1 / 2, 1 / 2], [1 / 4, 3 / 4::real]]]"
  let ?self = "\<lparr>R = 0, d = [4, 2], lam = 1\<rparr>"
  let ?x = "[\<lparr>label = ''x0'', value_range = (0, 3)\<rparr>, \<lparr>label = ''x1'', value_range = (0, 3)\<rparr>]"
  have a1: "is_matrix (?s ! R ?self)" by (simp add: is_matrix_def ncols_def)
  have a2: "0 < ncols (?s ! R ?self)" by (simp add: ncols_def)
  have a3: "nrows (?s ! R ?self) = length (d ?self)" by (simp add: nrows_def)
  have a4: "length ?x = ncols (?s ! R ?self)" by (simp add: ncols_def)
  have val: "quadratic_form (?s ! R ?self) (d ?self) (lam ?self) (length ?x) (\<lambda>i. 1) = - 8"
    by (simp add: quadratic_form_def linear_coefficient_def quadratic_coefficient_def
          second_difference_def lessThan_2)
  from hamiltonian_quadratic_form [OF a1 a2 a3 a4]
  obtain h where "define_hamiltonian ?self ?x ?s = Inr h"
    and "\<forall>env. eval env h
           = quadratic_form (?s ! R ?self) (d ?self) (lam ?self) (length ?x) (\<lambda>i. env (?x ! i))"
    by blast
  then have "define_hamiltonian ?self ?x ?s = Inr h \<and> eval (\<lambda>_. 1) h = - 8"
    using val by simp
  with a1 a2 a3 a4 show ?thesis by blast
qed
section \<open>The two solvers\<close>

lemma linear_terms_vars:
  "linear_terms a x ks h = Inr h' \<Longrightarrow>
     set (expr_vars h') = set (expr_vars h) \<union> (\<lambda>i. x ! i) ` set ks"
proof (induction ks arbitrary: h)
  case Nil
  then show ?case by auto
next
  case (Cons i ks)
  from Cons.prems have "linear_terms a x ks (Add h (Mul (Num (a ! i)) (Var (x ! i)))) = Inr h'"
    by (simp split: if_splits)
  from Cons.IH [OF this] show ?case by auto
qed

lemma quadratic_row_vars:
  "quadratic_row B x i ks h = Inr h' \<Longrightarrow>
     set (expr_vars h) \<subseteq> set (expr_vars h') \<and>
     set (expr_vars h') \<subseteq> set (expr_vars h) \<union> {x ! i} \<union> (\<lambda>j. x ! j) ` set ks"
proof (induction ks arbitrary: h)
  case Nil
  then show ?case by auto
next
  case (Cons j ks)
  from Cons.prems have
    "quadratic_row B x i ks (Add h (Mul (Mul (Num (B ! i ! j)) (Var (x ! i))) (Var (x ! j)))) = Inr h'"
    by (simp split: if_splits)
  from Cons.IH [OF this] show ?case by auto
qed

lemma quadratic_terms_vars:
  "quadratic_terms B x n ks h = Inr h' \<Longrightarrow>
     set (expr_vars h) \<subseteq> set (expr_vars h') \<and>
     set (expr_vars h') \<subseteq> set (expr_vars h) \<union> (\<lambda>i. x ! i) ` set ks \<union> (\<lambda>j. x ! j) ` {..<n}"
proof (induction ks arbitrary: h)
  case Nil
  then show ?case by auto
next
  case (Cons i ks)
  from Cons.prems obtain h1 where row: "quadratic_row B x i [0..<n] h = Inr h1"
    and rest: "quadratic_terms B x n ks h1 = Inr h'"
    by (auto split: sum.splits)
  from quadratic_row_vars [OF row] Cons.IH [OF rest] show ?case
    by (auto simp: lessThan_atLeast0)
qed

lemma nth_image_all: "(\<lambda>i. x ! i) ` {..<length x} = set x"
  by (auto simp: set_conv_nth)

lemma define_hamiltonian_vars:
  assumes "define_hamiltonian self x s = Inr h"
  shows "set (expr_vars h) = set x"
proof -
  from assms obtain a B h1 where
    lin: "linear_terms a x [0..<length x] (Num 0) = Inr h1"
    and quad: "quadratic_terms B x (length x) [0..<length x] h1 = Inr h"
    by (auto simp: define_hamiltonian_def Let_def split: sum.splits)
  from linear_terms_vars [OF lin] have v1: "set (expr_vars h1) = set x"
    by (simp add: nth_image_all [symmetric] lessThan_atLeast0)
  from quadratic_terms_vars [OF quad] v1 show ?thesis
    by (auto simp: nth_image_all lessThan_atLeast0 [symmetric])
qed

lemma py_min_from_first:
  "\<exists>j < Suc (length xs). py_min_from key best xs = (best # xs) ! j \<and>
      (\<forall>k < Suc (length xs). key ((best # xs) ! j) \<le> key ((best # xs) ! k)) \<and>
      (\<forall>k < j. key ((best # xs) ! j) < key ((best # xs) ! k))"
proof (induction xs arbitrary: best)
  case Nil
  then show ?case by auto
next
  case (Cons x xs)
  let ?b = "if key x < key best then x else best"
  from Cons.IH [of ?b] obtain j where j: "j < Suc (length xs)"
    and res: "py_min_from key ?b xs = (?b # xs) ! j"
    and least: "\<forall>k < Suc (length xs). key ((?b # xs) ! j) \<le> key ((?b # xs) ! k)"
    and first: "\<forall>k < j. key ((?b # xs) ! j) < key ((?b # xs) ! k)"
    by blast
  show ?case
  proof (cases j)
    case 0
    show ?thesis
    proof (cases "key x < key best")
      case True
      with 0 res least have "py_min_from key best (x # xs) = (best # x # xs) ! 1"
        and "\<forall>k < Suc (length (x # xs)). key ((best # x # xs) ! 1) \<le> key ((best # x # xs) ! k)"
        and "\<forall>k < (1::nat). key ((best # x # xs) ! 1) < key ((best # x # xs) ! k)"
        by (auto simp: nth_Cons split: nat.splits)
      then show ?thesis by (intro exI [of _ 1]) simp
    next
      case False
      with 0 res least have "py_min_from key best (x # xs) = (best # x # xs) ! 0"
        and "\<forall>k < Suc (length (x # xs)). key ((best # x # xs) ! 0) \<le> key ((best # x # xs) ! k)"
        by (auto simp: nth_Cons split: nat.splits)
      then show ?thesis by (intro exI [of _ 0]) simp
    qed
  next
    case (Suc i)
    from first Suc have lt: "key (xs ! i) < key ?b" by auto
    then have lb: "key (xs ! i) < key best" and lx: "key (xs ! i) < key x"
      by (auto split: if_splits)
    from Suc res have r: "py_min_from key best (x # xs) = (best # x # xs) ! Suc (Suc i)" by simp
    have l: "\<forall>k < Suc (length (x # xs)). key ((best # x # xs) ! Suc (Suc i)) \<le> key ((best # x # xs) ! k)"
    proof (intro allI impI)
      fix k assume k: "k < Suc (length (x # xs))"
      show "key ((best # x # xs) ! Suc (Suc i)) \<le> key ((best # x # xs) ! k)"
      proof (cases k)
        case 0
        then show ?thesis using lb by simp
      next
        case (Suc k')
        then have "k' < Suc (length xs)" using k by simp
        from least [rule_format, OF this] \<open>j = Suc i\<close> lx Suc show ?thesis
          by (cases k') (auto split: if_splits)
      qed
    qed
    have f: "\<forall>k < Suc (Suc i). key ((best # x # xs) ! Suc (Suc i)) < key ((best # x # xs) ! k)"
    proof (intro allI impI)
      fix k assume k: "k < Suc (Suc i)"
      show "key ((best # x # xs) ! Suc (Suc i)) < key ((best # x # xs) ! k)"
      proof (cases k)
        case 0
        then show ?thesis using lb by simp
      next
        case (Suc k')
        then have "k' < j" using k \<open>j = Suc i\<close> by simp
        from first [rule_format, OF this] \<open>j = Suc i\<close> lx Suc show ?thesis
          by (cases k') (auto split: if_splits)
      qed
    qed
    from j Suc have "Suc (Suc i) < Suc (length (x # xs))" by simp
    with r l f show ?thesis by blast
  qed
qed

lemma subh_values_all:
  "\<forall>l \<in> set ls. m l \<noteq> None \<Longrightarrow> subh_values m ls = Inr (map (\<lambda>l. the (m l)) ls)"
  by (induction ls) auto

lemma define_variables_value:
  assumes "define_variables self = Inr x"
  shows "\<exists>n. define_variables_n (d self) = Inr n \<and>
           x = map (\<lambda>i. \<lparr>label = ''x'' @ str_nat i, value_range = (0, n)\<rparr>) [0..<length (d self)]"
  using assms by (auto simp: define_variables_def split: sum.splits)

lemma define_pyqubo_model_value:
  assumes "define_pyqubo_model self s = Inr (labels, m)"
  shows "\<exists>n x h. define_variables_n (d self) = Inr n \<and>
           x = map (\<lambda>i. \<lparr>label = ''x'' @ str_nat i, value_range = (0, n)\<rparr>) [0..<length (d self)] \<and>
           define_hamiltonian self x s = Inr h \<and> m = Model h \<and> labels = map label x"
proof -
  from assms obtain x h where x: "define_variables self = Inr x"
    and h: "define_hamiltonian self x s = Inr h"
    and l: "labels = map (\<lambda>i. label (x ! i)) [0..<length x]" and m: "m = Model h"
    by (auto simp: define_pyqubo_model_def Let_def compile_def split: sum.splits)
  have "map (\<lambda>i. label (x ! i)) [0..<length x] = map label x"
    by (rule nth_equalityI) simp_all
  with define_variables_value [OF x] h l m show ?thesis by blast
qed

lemma subh_lookup:
  assumes "set vs = set x" and "\<forall>y \<in> set x. value_range y = (0, n)" and "y0 \<in> set x"
  shows "map_option (\<lambda>y. decode_variable y b) (find (\<lambda>y. label y = label y0) vs)
           = Some (real (log_decode (map (b (label y0)) [0..<num_digits (nat n)])))"
proof -
  from assms(1,3) have "\<exists>y \<in> set vs. label y = label y0" by blast
  then obtain y where f: "find (\<lambda>y. label y = label y0) vs = Some y"
    by (cases "find (\<lambda>y. label y = label y0) vs") (auto simp: find_None_iff)
  then have "y \<in> set vs" and ly: "label y = label y0"
    by (auto simp: find_Some_iff)
  with assms(1,2) have "value_range y = (0, n)" by blast
  with ly f show ?thesis by (simp add: decode_variable_def)
qed

lemma decode_best:
  assumes "define_pyqubo_model self s = Inr (labels, m)" and "ss \<noteq> []"
  shows "\<exists>j n. j < length ss \<and> define_variables_n (d self) = Inr n \<and>
           labels = map (\<lambda>i. ''x'' @ str_nat i) [0..<length (d self)] \<and>
           (\<forall>k < length ss. sample_energy (ss ! j) \<le> sample_energy (ss ! k)) \<and>
           (\<forall>k < j. sample_energy (ss ! j) < sample_energy (ss ! k)) \<and>
           (case py_min energy (decode_sampleset m ss) of
              Inl e \<Rightarrow> Inl e
            | Inr best_sample \<Rightarrow> subh_values (subh best_sample) labels)
             = Inr (map (\<lambda>l. real (log_decode (map (assignment (ss ! j) l) [0..<num_digits (nat n)])))
                      labels)"
proof -
  from define_pyqubo_model_value [OF assms(1)] obtain n x h where
    n: "define_variables_n (d self) = Inr n"
    and x: "x = map (\<lambda>i. \<lparr>label = ''x'' @ str_nat i, value_range = (0, n)\<rparr>) [0..<length (d self)]"
    and h: "define_hamiltonian self x s = Inr h" and m: "m = Model h"
    and l: "labels = map label x"
    by blast
  have vars: "set (expr_vars h) = set x" by (rule define_hamiltonian_vars [OF h])
  have rng: "\<forall>y \<in> set x. value_range y = (0, n)" unfolding x by auto
  have lab: "labels = map (\<lambda>i. ''x'' @ str_nat i) [0..<length (d self)]"
    unfolding l x by simp
  let ?dec = "decode_sampleset m ss"
  have len: "length ?dec = length ss" by (simp add: decode_sampleset_def)
  have en: "energy (?dec ! k) = sample_energy (ss ! k)" if "k < length ss" for k
    using that by (simp add: decode_sampleset_def)
  from assms(2) len obtain b bs where dec: "?dec = b # bs" by (cases ?dec) auto
  from py_min_from_first [of bs energy b] obtain j where j: "j < Suc (length bs)"
    and res: "py_min_from energy b bs = (b # bs) ! j"
    and least: "\<forall>k < Suc (length bs). energy ((b # bs) ! j) \<le> energy ((b # bs) ! k)"
    and first: "\<forall>k < j. energy ((b # bs) ! j) < energy ((b # bs) ! k)"
    by blast
  from j dec len have jl: "j < length ss" by simp
  have min: "py_min energy ?dec = Inr (?dec ! j)"
    using res by (simp add: py_min_def dec)
  have least': "\<forall>k < length ss. sample_energy (ss ! j) \<le> sample_energy (ss ! k)"
  proof (intro allI impI)
    fix k assume k: "k < length ss"
    then have "k < Suc (length bs)" using dec len by simp
    from least [rule_format, OF this] show "sample_energy (ss ! j) \<le> sample_energy (ss ! k)"
      unfolding dec [symmetric] by (simp add: en jl k)
  qed
  have first': "\<forall>k < j. sample_energy (ss ! j) < sample_energy (ss ! k)"
  proof (intro allI impI)
    fix k assume k: "k < j"
    then have kl: "k < length ss" using jl by simp
    from first [rule_format, OF k] show "sample_energy (ss ! j) < sample_energy (ss ! k)"
      unfolding dec [symmetric] by (simp add: en jl kl)
  qed
  have sub: "subh (?dec ! j) (label y0)
               = Some (real (log_decode (map (assignment (ss ! j) (label y0)) [0..<num_digits (nat n)])))"
    if "y0 \<in> set x" for y0
    using subh_lookup [OF vars rng that, of "assignment (ss ! j)"] jl
    by (simp add: decode_sampleset_def m)
  have "\<forall>l \<in> set labels. subh (?dec ! j) l \<noteq> None"
    unfolding l using sub by auto
  from subh_values_all [OF this]
  have "subh_values (subh (?dec ! j)) labels = Inr (map (\<lambda>l. the (subh (?dec ! j) l)) labels)" .
  also have "map (\<lambda>l. the (subh (?dec ! j) l)) labels
               = map (\<lambda>l. real (log_decode (map (assignment (ss ! j) l) [0..<num_digits (nat n)]))) labels"
    unfolding l using sub by auto
  finally have "(case py_min energy ?dec of
              Inl e \<Rightarrow> Inl e
            | Inr best_sample \<Rightarrow> subh_values (subh best_sample) labels)
             = Inr (map (\<lambda>l. real (log_decode (map (assignment (ss ! j) l) [0..<num_digits (nat n)])))
                      labels)"
    by (simp add: min)
  with jl n lab least' first' show ?thesis by blast
qed

lemma str_nat_0: "str_nat 0 = ''0''"
  by (simp add: str_nat.simps)

lemma str_nat_1: "str_nat (Suc 0) = ''1''"
  by (simp add: str_nat.simps [of "Suc 0"])

lemma upt_2: "[0..<2] = [0, 1]"
  by (simp add: upt_rec numeral_2_eq_2)

lemma define_variables_4_2:
  "define_variables \<lparr>R = 0, d = [4, 2], lam = l\<rparr>
     = Inr [\<lparr>label = ''x0'', value_range = (0, 3)\<rparr>, \<lparr>label = ''x1'', value_range = (0, 3)\<rparr>]"
proof -
  have "define_variables_n [4, 2] = Inr (2 ^ 2 - 1)"
    by (rule define_variables_n_between) simp_all
  then show ?thesis
    by (simp add: define_variables_def upt_2 str_nat_0 str_nat_1)
qed

text \<open>
  C6. Decoding. Once the model is built and the sampler has returned a sample set that is
  not empty, both solvers return a vector, with one entry for each label in the order of
  the labels. The entries are read from one sample: a sample of least energy, and the
  first of them in the order of the sample set (every sample before it has a strictly
  larger energy). The entry of a label is the weighted sum of the binary digits that the
  sample assigns to the sub-variables of that label, with the weights \<open>2 ^ i\<close>. The result
  is a function of the sample set, of the labels and of the encoding bound only, the same
  for the two solvers.
\<close>

theorem decode_selects_first_minimum:
  assumes "define_pyqubo_model self s = Inr (labels, m)" and "ss \<noteq> []"
  shows "\<exists>j n. j < length ss \<and> define_variables_n (d self) = Inr n \<and>
           labels = map (\<lambda>i. ''x'' @ str_nat i) [0..<length (d self)] \<and>
           (\<forall>k < length ss. sample_energy (ss ! j) \<le> sample_energy (ss ! k)) \<and>
           (\<forall>k < j. sample_energy (ss ! j) < sample_energy (ss ! k)) \<and>
           (\<forall>sampler num_reads seed. sampler (to_bqm m) num_reads seed = Inr ss \<longrightarrow>
              solve_simulated_annealing sampler num_reads seed self s
                = Inr (map (\<lambda>l. real (log_decode (map (assignment (ss ! j) l)
                                                   [0..<num_digits (nat n)]))) labels)) \<and>
           (\<forall>sampler. sampler (to_bqm m) = Inr ss \<longrightarrow>
              solve_hybrid_sampler sampler self s
                = Inr (map (\<lambda>l. real (log_decode (map (assignment (ss ! j) l)
                                                   [0..<num_digits (nat n)]))) labels))"
proof -
  from decode_best [OF assms] obtain j n where "j < length ss"
    and "define_variables_n (d self) = Inr n"
    and "labels = map (\<lambda>i. ''x'' @ str_nat i) [0..<length (d self)]"
    and "\<forall>k < length ss. sample_energy (ss ! j) \<le> sample_energy (ss ! k)"
    and "\<forall>k < j. sample_energy (ss ! j) < sample_energy (ss ! k)"
    and best: "(case py_min energy (decode_sampleset m ss) of
              Inl e \<Rightarrow> Inl e
            | Inr best_sample \<Rightarrow> subh_values (subh best_sample) labels)
             = Inr (map (\<lambda>l. real (log_decode (map (assignment (ss ! j) l) [0..<num_digits (nat n)])))
                      labels)"
    by blast
  moreover have "solve_simulated_annealing sampler num_reads seed self s
                = Inr (map (\<lambda>l. real (log_decode (map (assignment (ss ! j) l)
                                                   [0..<num_digits (nat n)]))) labels)"
    if "sampler (to_bqm m) num_reads seed = Inr ss" for sampler num_reads seed
    using that best by (simp add: solve_simulated_annealing_def assms(1) Let_def)
  moreover have "solve_hybrid_sampler sampler self s
                = Inr (map (\<lambda>l. real (log_decode (map (assignment (ss ! j) l)
                                                   [0..<num_digits (nat n)]))) labels)"
    if "sampler (to_bqm m) = Inr ss" for sampler
    using that best by (simp add: solve_hybrid_sampler_def assms(1) Let_def)
  ultimately show ?thesis by blast
qed

theorem decode_selects_first_minimum_witness:
  "(\<exists>labels m. define_pyqubo_model \<lparr>R = 0, d = [4, 2], lam = 0\<rparr> [[[1 / 2, 1 / 2], [1 / 4, 3 / 4]]]
                  = Inr (labels, m)) \<and>
   [\<lparr>assignment = \<lambda>l i. True, sample_energy = 1\<rparr>,
    \<lparr>assignment = \<lambda>l i. l = ''x0'' \<and> i = 0 \<or> l = ''x1'' \<and> i = 1, sample_energy = 0\<rparr>,
    \<lparr>assignment = \<lambda>l i. False, sample_energy = 0\<rparr>] \<noteq> [] \<and>
   solve_simulated_annealing
     (\<lambda>bqm num_reads seed.
        Inr [\<lparr>assignment = \<lambda>l i. True, sample_energy = 1\<rparr>,
             \<lparr>assignment = \<lambda>l i. l = ''x0'' \<and> i = 0 \<or> l = ''x1'' \<and> i = 1, sample_energy = 0\<rparr>,
             \<lparr>assignment = \<lambda>l i. False, sample_energy = 0\<rparr>])
     100 None \<lparr>R = 0, d = [4, 2], lam = 0\<rparr> [[[1 / 2, 1 / 2], [1 / 4, 3 / 4]]] = Inr [1, 2] \<and>
   solve_hybrid_sampler
     (\<lambda>bqm.
        Inr [\<lparr>assignment = \<lambda>l i. True, sample_energy = 1\<rparr>,
             \<lparr>assignment = \<lambda>l i. l = ''x0'' \<and> i = 0 \<or> l = ''x1'' \<and> i = 1, sample_energy = 0\<rparr>,
             \<lparr>assignment = \<lambda>l i. False, sample_energy = 0\<rparr>])
     \<lparr>R = 0, d = [4, 2], lam = 0\<rparr> [[[1 / 2, 1 / 2], [1 / 4, 3 / 4]]] = Inr [1, 2]"
proof -
  let ?s = "[[[1 / 2, 1 / 2], [1 / 4, 3 / 4::real]]]"
  let ?self = "\<lparr>R = 0, d = [4, 2], lam = 0\<rparr>"
  let ?x = "[\<lparr>label = ''x0'', value_range = (0, 3)\<rparr>, \<lparr>label = ''x1'', value_range = (0, 3)\<rparr>]"
  let ?ss = "[\<lparr>assignment = \<lambda>l i. True, sample_energy = 1\<rparr>,
              \<lparr>assignment = \<lambda>l i. l = ''x0'' \<and> i = 0 \<or> l = ''x1'' \<and> i = 1, sample_energy = 0\<rparr>,
              \<lparr>assignment = \<lambda>l i. False, sample_energy = 0\<rparr>]"
  have a1: "is_matrix (?s ! R ?self)" by (simp add: is_matrix_def ncols_def)
  have a2: "0 < ncols (?s ! R ?self)" by (simp add: ncols_def)
  have a3: "nrows (?s ! R ?self) = length (d ?self)" by (simp add: nrows_def)
  have a4: "length ?x = ncols (?s ! R ?self)" by (simp add: ncols_def)
  from define_hamiltonian_value [OF a1 a2 a3 a4]
  obtain h where h: "define_hamiltonian ?self ?x ?s = Inr h" by blast
  have built: "define_pyqubo_model ?self ?s = Inr (map (\<lambda>i. label (?x ! i)) [0..<length ?x], compile h)"
    by (simp only: define_pyqubo_model_def define_variables_4_2 h sum.case Let_def)
  have ne: "?ss \<noteq> []" by simp
  from decode_selects_first_minimum [OF built ne]
  obtain j n where j: "j < length ?ss" and n: "define_variables_n (d ?self) = Inr n"
    and lab: "map (\<lambda>i. label (?x ! i)) [0..<length ?x]
                = map (\<lambda>i. ''x'' @ str_nat i) [0..<length (d ?self)]"
    and least: "\<forall>k < length ?ss. sample_energy (?ss ! j) \<le> sample_energy (?ss ! k)"
    and first: "\<forall>k < j. sample_energy (?ss ! j) < sample_energy (?ss ! k)"
    and sim: "\<forall>sampler num_reads seed. sampler (to_bqm (compile h)) num_reads seed = Inr ?ss \<longrightarrow>
              solve_simulated_annealing sampler num_reads seed ?self ?s
                = Inr (map (\<lambda>l. real (log_decode (map (assignment (?ss ! j) l)
                                                   [0..<num_digits (nat n)])))
                         (map (\<lambda>i. label (?x ! i)) [0..<length ?x]))"
    and hyb: "\<forall>sampler. sampler (to_bqm (compile h)) = Inr ?ss \<longrightarrow>
              solve_hybrid_sampler sampler ?self ?s
                = Inr (map (\<lambda>l. real (log_decode (map (assignment (?ss ! j) l)
                                                   [0..<num_digits (nat n)])))
                         (map (\<lambda>i. label (?x ! i)) [0..<length ?x]))"
    by blast
  have "define_variables_n [4, 2] = Inr (2 ^ 2 - 1)"
    by (rule define_variables_n_between) simp_all
  with n have n3: "n = 3" by simp
  from j have "j = 0 \<or> j = 1 \<or> j = 2" by auto
  moreover have "j \<noteq> 0"
  proof
    assume "j = 0"
    with least [rule_format, of 1] show False by simp
  qed
  moreover have "j \<noteq> 2"
  proof
    assume "j = 2"
    with first [rule_format, of 1] show False by simp
  qed
  ultimately have j1: "j = 1" by blast
  have val: "map (\<lambda>l. real (log_decode (map (assignment (?ss ! j) l) [0..<num_digits (nat n)])))
               (map (\<lambda>i. label (?x ! i)) [0..<length ?x]) = [1, 2]"
    unfolding j1 n3 by (simp add: num_digits_3 upt_2 log_decode_def)
  from sim [rule_format, of "\<lambda>bqm num_reads seed. Inr ?ss" 100 None]
  have r1: "solve_simulated_annealing (\<lambda>bqm num_reads seed. Inr ?ss) 100 None ?self ?s = Inr [1, 2]"
    unfolding val by simp
  from hyb [rule_format, of "\<lambda>bqm. Inr ?ss"]
  have r2: "solve_hybrid_sampler (\<lambda>bqm. Inr ?ss) ?self ?s = Inr [1, 2]"
    unfolding val by simp
  from built have "\<exists>labels m. define_pyqubo_model ?self ?s = Inr (labels, m)" by blast
  with ne r1 r2 show ?thesis by blast
qed

lemma upt_1: "[0..<1] = [0]"
  by (simp add: upt_rec)

lemma define_variables_4:
  "define_variables \<lparr>R = 0, d = [4], lam = l\<rparr> = Inr [\<lparr>label = ''x0'', value_range = (0, 3)\<rparr>]"
proof -
  have "define_variables_n [4] = Inr (2 ^ 2 - 1)"
    by (rule define_variables_n_between) simp_all
  then show ?thesis
    by (simp add: define_variables_def str_nat_0)
qed

lemma get_laplacian_1: "get_laplacian (Suc 0) = Inr [[- 2]]"
  by (simp add: get_laplacian_def np_ones_def np_diag_def np_add_def nrows_def ncols_def Let_def)

lemma define_hamiltonian_1x2:
  "define_hamiltonian \<lparr>R = 0, d = [4], lam = 0\<rparr> [\<lparr>label = ''x0'', value_range = (0, 3)\<rparr>]
     [[[1 / 2, 1 / 2]]]
   = Inr (Add (Add (Num 0) (Mul (Num (- 4)) (Var \<lparr>label = ''x0'', value_range = (0, 3)\<rparr>)))
            (Mul (Mul (Num (1 / 4)) (Var \<lparr>label = ''x0'', value_range = (0, 3)\<rparr>))
               (Var \<lparr>label = ''x0'', value_range = (0, 3)\<rparr>)))"
  by (simp add: define_hamiltonian_def Let_def matvec_def np_T_def ncols_def nrows_def upt_2
        get_laplacian_1 hamiltonian_B_def matmul_def np_scale_def np_add_def)

lemma define_pyqubo_model_1x2:
  "define_pyqubo_model \<lparr>R = 0, d = [4], lam = 0\<rparr> [[[1 / 2, 1 / 2]]]
   = Inr ([''x0''],
          Model (Add (Add (Num 0) (Mul (Num (- 4)) (Var \<lparr>label = ''x0'', value_range = (0, 3)\<rparr>)))
            (Mul (Mul (Num (1 / 4)) (Var \<lparr>label = ''x0'', value_range = (0, 3)\<rparr>))
               (Var \<lparr>label = ''x0'', value_range = (0, 3)\<rparr>))))"
  by (simp add: define_pyqubo_model_def define_variables_4 define_hamiltonian_1x2 compile_def)

lemma define_variables_2_2:
  "define_variables \<lparr>R = 0, d = [2, 2], lam = l\<rparr>
     = Inr [\<lparr>label = ''x0'', value_range = (0, 3)\<rparr>, \<lparr>label = ''x1'', value_range = (0, 3)\<rparr>]"
proof -
  have "define_variables_n [2, 2] = Inr (2 ^ 2 - 1)"
    by (rule define_variables_n_between) simp_all
  then show ?thesis
    by (simp add: define_variables_def upt_2 str_nat_0 str_nat_1)
qed

lemma define_hamiltonian_2x1:
  "define_hamiltonian \<lparr>R = 0, d = [2, 2], lam = l\<rparr>
     [\<lparr>label = ''x0'', value_range = (0, 3)\<rparr>, \<lparr>label = ''x1'', value_range = (0, 3)\<rparr>]
     [[[1], [1]]] = Inl IndexError"
  by (simp add: define_hamiltonian_def Let_def matvec_def np_T_def ncols_def nrows_def upt_2 upt_1)

text \<open>
  C1. The length of the result on a response matrix that is not square.
  \<open>_define_variables\<close> makes one variable for each entry of the measured vector, while the
  coefficients \<open>a\<close> and \<open>B\<close> of the Hamiltonian have the extent of the columns of \<open>R\<close>. For the
  normalised response \<open>[[1/2, 1/2]]\<close> (one measured bin, two truth bins) and the measured
  vector \<open>[4]\<close>, both solvers return a vector of length 1 and not 2. For the normalised
  response \<open>[[1], [1]]\<close> (two measured bins, one truth bin) and the measured vector
  \<open>[2, 2]\<close>, both solvers raise IndexError at \<open>a[1]\<close>, whatever the sampler.
\<close>

theorem solve_returns_one_entry_per_measured_bin:
  "init 0 [4] 0 [[[1 / 2, 1 / 2]]] = Inr (\<lparr>R = 0, d = [4], lam = 0\<rparr>, [[[1 / 2, 1 / 2]]]) \<and>
   nrows [[1 / 2, 1 / 2 :: real]] = 1 \<and> ncols [[1 / 2, 1 / 2 :: real]] = 2 \<and>
   solve_simulated_annealing
     (\<lambda>bqm num_reads seed. Inr [\<lparr>assignment = \<lambda>l i. True, sample_energy = 0\<rparr>]) 100 None
     \<lparr>R = 0, d = [4], lam = 0\<rparr> [[[1 / 2, 1 / 2]]] = Inr [3] \<and>
   solve_hybrid_sampler (\<lambda>bqm. Inr [\<lparr>assignment = \<lambda>l i. True, sample_energy = 0\<rparr>])
     \<lparr>R = 0, d = [4], lam = 0\<rparr> [[[1 / 2, 1 / 2]]] = Inr [3] \<and>
   init 0 [2, 2] 0 [[[1], [1]]] = Inr (\<lparr>R = 0, d = [2, 2], lam = 0\<rparr>, [[[1], [1]]]) \<and>
   solve_simulated_annealing sampler num_reads seed \<lparr>R = 0, d = [2, 2], lam = 0\<rparr> [[[1], [1]]]
     = Inl IndexError \<and>
   solve_hybrid_sampler sampler' \<lparr>R = 0, d = [2, 2], lam = 0\<rparr> [[[1], [1]]] = Inl IndexError"
proof (intro conjI)
  show "init 0 [4] 0 [[[1 / 2, 1 / 2]]] = Inr (\<lparr>R = 0, d = [4], lam = 0\<rparr>, [[[1 / 2, 1 / 2]]])"
    by (simp add: init_def is_normalized_def np_allclose_def np_sum_axis1_def)
  show "init 0 [2, 2] 0 [[[1], [1]]] = Inr (\<lparr>R = 0, d = [2, 2], lam = 0\<rparr>, [[[1], [1]]])"
    by (simp add: init_def is_normalized_def np_allclose_def np_sum_axis1_def)
  show "nrows [[1 / 2, 1 / 2 :: real]] = 1" by (simp add: nrows_def)
  show "ncols [[1 / 2, 1 / 2 :: real]] = 2" by (simp add: ncols_def)
  show "solve_simulated_annealing
     (\<lambda>bqm num_reads seed. Inr [\<lparr>assignment = \<lambda>l i. True, sample_energy = 0\<rparr>]) 100 None
     \<lparr>R = 0, d = [4], lam = 0\<rparr> [[[1 / 2, 1 / 2]]] = Inr [3]"
    by (simp add: solve_simulated_annealing_def define_pyqubo_model_1x2 decode_sampleset_def
          py_min_def decode_variable_def num_digits_3 upt_2 log_decode_def)
  show "solve_hybrid_sampler (\<lambda>bqm. Inr [\<lparr>assignment = \<lambda>l i. True, sample_energy = 0\<rparr>])
     \<lparr>R = 0, d = [4], lam = 0\<rparr> [[[1 / 2, 1 / 2]]] = Inr [3]"
    by (simp add: solve_hybrid_sampler_def define_pyqubo_model_1x2 decode_sampleset_def
          py_min_def decode_variable_def num_digits_3 upt_2 log_decode_def)
  show "solve_simulated_annealing sampler num_reads seed \<lparr>R = 0, d = [2, 2], lam = 0\<rparr> [[[1], [1]]]
     = Inl IndexError"
    by (simp add: solve_simulated_annealing_def define_pyqubo_model_def define_variables_2_2
          define_hamiltonian_2x1)
  show "solve_hybrid_sampler sampler' \<lparr>R = 0, d = [2, 2], lam = 0\<rparr> [[[1], [1]]] = Inl IndexError"
    by (simp add: solve_hybrid_sampler_def define_pyqubo_model_def define_variables_2_2
          define_hamiltonian_2x1)
qed

lemma str_nat_2: "str_nat (Suc (Suc 0)) = ''2''"
  by (simp add: str_nat.simps [of "Suc (Suc 0)"])

lemma ncols_np_T: "0 < ncols M \<Longrightarrow> ncols (np_T M) = nrows M"
  by (cases "ncols M") (simp_all add: np_T_def ncols_def nrows_def upt_rec)

lemma length_scaled_row: "length (scaled_row r) = length r"
  by (simp add: scaled_row_def)

lemma ncols_scaled: "ncols (map scaled_row M) = ncols M"
  by (cases M) (simp_all add: ncols_def length_scaled_row)

lemma nrows_scaled: "nrows (map scaled_row M) = nrows M"
  by (simp add: nrows_def)

lemma init_shape:
  assumes "a < length s"
  shows "\<exists>obj s'. init a meas l s = Inr (obj, s') \<and> d obj = meas \<and> lam obj = l \<and>
           nrows (s' ! R obj) = nrows (s ! a) \<and> ncols (s' ! R obj) = ncols (s ! a)"
  using assms by (simp add: init_value [OF assms] nrows_scaled ncols_scaled)

lemma define_hamiltonian_mismatch:
  assumes "0 < ncols (s ! R self)" and "nrows (s ! R self) \<noteq> length (d self)"
  shows "define_hamiltonian self x s = Inl ValueError"
  using assms by (simp add: define_hamiltonian_def Let_def matvec_def ncols_np_T)

lemma define_pyqubo_model_mismatch:
  assumes "0 < ncols (s ! R self)" and "nrows (s ! R self) \<noteq> length (d self)"
  shows "define_pyqubo_model self s
           = (case define_variables_n (d self) of Inl e \<Rightarrow> Inl e | Inr n \<Rightarrow> Inl ValueError)"
  by (simp add: define_pyqubo_model_def define_variables_def
        define_hamiltonian_mismatch [OF assms] split: sum.splits)

text \<open>
  The constructor checks no shape. A response matrix with two rows and a measured vector
  of three entries are accepted, and \<open>_define_variables\<close> then encodes three variables.
\<close>

theorem shape_mismatch_accepted_at_construction:
  "init 0 [4, 2, 1] 0 [[[1 / 2, 1 / 2], [1 / 4, 3 / 4]]]
     = Inr (\<lparr>R = 0, d = [4, 2, 1], lam = 0\<rparr>, [[[1 / 2, 1 / 2], [1 / 4, 3 / 4]]]) \<and>
   nrows [[1 / 2, 1 / 2], [1 / 4, 3 / 4 :: real]] \<noteq> length [4, 2, 1 :: real] \<and>
   define_variables \<lparr>R = 0, d = [4, 2, 1], lam = 0\<rparr>
     = Inr [\<lparr>label = ''x0'', value_range = (0, 3)\<rparr>, \<lparr>label = ''x1'', value_range = (0, 3)\<rparr>,
            \<lparr>label = ''x2'', value_range = (0, 3)\<rparr>]"
proof (intro conjI)
  show "init 0 [4, 2, 1] 0 [[[1 / 2, 1 / 2], [1 / 4, 3 / 4]]]
     = Inr (\<lparr>R = 0, d = [4, 2, 1], lam = 0\<rparr>, [[[1 / 2, 1 / 2], [1 / 4, 3 / 4]]])"
    by (simp add: init_def is_normalized_def np_allclose_def np_sum_axis1_def)
  show "nrows [[1 / 2, 1 / 2], [1 / 4, 3 / 4 :: real]] \<noteq> length [4, 2, 1 :: real]"
    by (simp add: nrows_def)
  have "define_variables_n [4, 2, 1] = Inr (2 ^ 2 - 1)"
    by (rule define_variables_n_between) simp_all
  then show "define_variables \<lparr>R = 0, d = [4, 2, 1], lam = 0\<rparr>
     = Inr [\<lparr>label = ''x0'', value_range = (0, 3)\<rparr>, \<lparr>label = ''x1'', value_range = (0, 3)\<rparr>,
            \<lparr>label = ''x2'', value_range = (0, 3)\<rparr>]"
    by (simp add: define_variables_def upt_rec [of 0 3] upt_rec [of 1 3] upt_rec [of 2 3]
          str_nat_0 str_nat_1 str_nat_2)
qed

text \<open>
  C7. A response matrix (with at least one column) whose number of rows differs from the
  length of the measured vector is accepted by the constructor, which returns an object
  holding that vector. \<open>_define_variables\<close> does not look at the matrix: it fails or
  succeeds as the bound does, and makes one variable for each measured entry. The mismatch
  is found by the product \<open>self.R.T @ self.d\<close> in \<open>_define_hamiltonian\<close>, which raises
  ValueError for every list of variables; so both solvers fail, with the error of the
  bound if there is one and with that ValueError otherwise, before any sampler is called.
\<close>

theorem shape_mismatch_fails_in_hamiltonian:
  assumes "a < length s" and "0 < ncols (s ! a)" and "nrows (s ! a) \<noteq> length meas"
  shows "\<exists>obj s'. init a meas l s = Inr (obj, s') \<and> d obj = meas \<and>
           define_variables obj
             = (case define_variables_n meas of
                  Inl e \<Rightarrow> Inl e
                | Inr n \<Rightarrow> Inr (map (\<lambda>i. \<lparr>label = ''x'' @ str_nat i, value_range = (0, n)\<rparr>)
                                [0..<length meas])) \<and>
           (\<forall>x. define_hamiltonian obj x s' = Inl ValueError) \<and>
           (\<forall>sampler num_reads seed.
              solve_simulated_annealing sampler num_reads seed obj s'
                = (case define_variables_n meas of Inl e \<Rightarrow> Inl e | Inr n \<Rightarrow> Inl ValueError)) \<and>
           (\<forall>sampler.
              solve_hybrid_sampler sampler obj s'
                = (case define_variables_n meas of Inl e \<Rightarrow> Inl e | Inr n \<Rightarrow> Inl ValueError))"
proof -
  from init_shape [OF assms(1), of meas l] obtain obj s' where
    i: "init a meas l s = Inr (obj, s')" and dm: "d obj = meas"
    and nr: "nrows (s' ! R obj) = nrows (s ! a)" and nc: "ncols (s' ! R obj) = ncols (s ! a)"
    by blast
  have c: "0 < ncols (s' ! R obj)" using assms(2) nc by simp
  have r: "nrows (s' ! R obj) \<noteq> length (d obj)" using assms(3) nr dm by simp
  have dv: "define_variables obj
             = (case define_variables_n meas of
                  Inl e \<Rightarrow> Inl e
                | Inr n \<Rightarrow> Inr (map (\<lambda>i. \<lparr>label = ''x'' @ str_nat i, value_range = (0, n)\<rparr>)
                                [0..<length meas]))"
    unfolding define_variables_def dm by (rule refl)
  have dh: "\<forall>x. define_hamiltonian obj x s' = Inl ValueError"
    by (simp add: define_hamiltonian_mismatch [OF c r])
  have m: "define_pyqubo_model obj s'
             = (case define_variables_n meas of Inl e \<Rightarrow> Inl e | Inr n \<Rightarrow> Inl ValueError)"
    using define_pyqubo_model_mismatch [OF c r] by (simp add: dm)
  have sa: "\<forall>sampler num_reads seed.
              solve_simulated_annealing sampler num_reads seed obj s'
                = (case define_variables_n meas of Inl e \<Rightarrow> Inl e | Inr n \<Rightarrow> Inl ValueError)"
    by (simp add: solve_simulated_annealing_def m split: sum.splits)
  have hy: "\<forall>sampler.
              solve_hybrid_sampler sampler obj s'
                = (case define_variables_n meas of Inl e \<Rightarrow> Inl e | Inr n \<Rightarrow> Inl ValueError)"
    by (simp add: solve_hybrid_sampler_def m split: sum.splits)
  from i dm dv dh sa hy show ?thesis by blast
qed

theorem shape_mismatch_fails_in_hamiltonian_witness:
  "(0::nat) < length [[[1 / 2, 1 / 2], [1 / 4, 3 / 4 :: real]]] \<and>
   0 < ncols ([[[1 / 2, 1 / 2], [1 / 4, 3 / 4 :: real]]] ! 0) \<and>
   nrows ([[[1 / 2, 1 / 2], [1 / 4, 3 / 4 :: real]]] ! 0) \<noteq> length [4, 2, 1 :: real] \<and>
   (\<exists>obj s'. init 0 [4, 2, 1] 0 [[[1 / 2, 1 / 2], [1 / 4, 3 / 4]]] = Inr (obj, s') \<and>
       define_hamiltonian obj [] s' = Inl ValueError \<and>
       solve_simulated_annealing (\<lambda>bqm num_reads seed. Inr []) 100 None obj s' = Inl ValueError \<and>
       solve_hybrid_sampler (\<lambda>bqm. Inr []) obj s' = Inl ValueError)"
proof -
  let ?s = "[[[1 / 2, 1 / 2], [1 / 4, 3 / 4 :: real]]]"
  have a1: "(0::nat) < length ?s" by simp
  have a2: "0 < ncols (?s ! 0)" by (simp add: ncols_def)
  have a3: "nrows (?s ! 0) \<noteq> length [4, 2, 1 :: real]" by (simp add: nrows_def)
  have n: "define_variables_n [4, 2, 1] = Inr (2 ^ 2 - 1)"
    by (rule define_variables_n_between) simp_all
  from shape_mismatch_fails_in_hamiltonian [OF a1 a2 a3, of 0]
  obtain obj s' where i: "init 0 [4, 2, 1] 0 ?s = Inr (obj, s')"
    and dh: "\<forall>x. define_hamiltonian obj x s' = Inl ValueError"
    and sa: "\<forall>sampler num_reads seed.
              solve_simulated_annealing sampler num_reads seed obj s'
                = (case define_variables_n [4, 2, 1] of Inl e \<Rightarrow> Inl e | Inr n \<Rightarrow> Inl ValueError)"
    and hy: "\<forall>sampler.
              solve_hybrid_sampler sampler obj s'
                = (case define_variables_n [4, 2, 1] of Inl e \<Rightarrow> Inl e | Inr n \<Rightarrow> Inl ValueError)"
    by blast
  from dh have r0: "define_hamiltonian obj [] s' = Inl ValueError" by simp
  from sa n have r1: "solve_simulated_annealing (\<lambda>bqm num_reads seed. Inr []) 100 None obj s'
                        = Inl ValueError" by simp
  from hy n have r2: "solve_hybrid_sampler (\<lambda>bqm. Inr []) obj s' = Inl ValueError" by simp
  from i r0 r1 r2 have "\<exists>obj s'. init 0 [4, 2, 1] 0 ?s = Inr (obj, s') \<and>
       define_hamiltonian obj [] s' = Inl ValueError \<and>
       solve_simulated_annealing (\<lambda>bqm num_reads seed. Inr []) 100 None obj s' = Inl ValueError \<and>
       solve_hybrid_sampler (\<lambda>bqm. Inr []) obj s' = Inl ValueError"
    by blast
  with a1 a2 a3 show ?thesis by blast
qed




end
